theory Spec2Isabelle
  imports Main "HOL-Library.Monad_Syntax"
begin

section \<open>The in-memory cache store\<close>

text \<open>
  The store of \<^verbatim>\<open>memory.go\<close> keeps pointers to its items twice: in the slice
  \<^verbatim>\<open>heap\<close>, ordered as a binary min-heap by expiration, and in the map
  \<^verbatim>\<open>index\<close> from keys to items. The field \<^verbatim>\<open>index\<close> of an item is written
  through either pointer, so the model has an explicit object store: \<open>mem\<close> holds the
  items ever allocated, an address is a position in \<open>mem\<close>, and the slice and the map
  hold addresses.

  Instants (\<^verbatim>\<open>time.Time\<close>) and durations are integers, counted in nanoseconds.
  A value of type \<^verbatim>\<open>interface{}\<close> is either \<^verbatim>\<open>nil\<close> or a payload.
  A run-time panic of Go (an index out of range, a dangling address) is the result
  \<open>None\<close>; the Go-level \<^verbatim>\<open>error\<close> a method returns is an \<open>error option\<close>,
  \<open>None\<close> being \<^verbatim>\<open>nil\<close>. The field \<open>nowFunc\<close> is the instant the clock function
  returns; the clock moves between the steps of the store, not inside one. The lock of
  the store is not modelled: each public method runs under it, so each is one atomic
  step on the state, but for \<open>GC\<close>, which takes the lock once per round.
\<close>

type_synonym time = int

type_synonym duration = int

type_synonym addr = nat

datatype 'v iface = GoNil | GoVal 'v

text \<open>
  Error values: \<^verbatim>\<open>os.ErrNotExist\<close>, any other error by its message, and
  \<^verbatim>\<open>errors.Wrap(err, msg)\<close>.
\<close>

datatype error = ErrNotExist | ErrOther string | Wrap error string

record 'v memoryItem =
  key :: string
  val :: "'v iface"
  expiredAt :: time
  idx :: int

record 'v memoryStore =
  nowFunc :: time
  heap :: "addr list"
  index :: "string \<rightharpoonup> addr"
  mem :: "'v memoryItem list"

definition newMemoryItem :: "string \<Rightarrow> 'v iface \<Rightarrow> time \<Rightarrow> 'v memoryItem" where
  "newMemoryItem k v e = \<lparr>key = k, val = v, expiredAt = e, idx = 0\<rparr>"

definition newMemoryStore :: "time \<Rightarrow> 'v memoryStore" where
  "newMemoryStore now = \<lparr>nowFunc = now, heap = [], index = Map.empty, mem = []\<rparr>"

text \<open>Reading and writing an item through its address.\<close>

definition deref :: "'v memoryStore \<Rightarrow> addr \<Rightarrow> 'v memoryItem option" where
  "deref s a = (if a < length (mem s) then Some (mem s ! a) else None)"

definition set_idx :: "'v memoryStore \<Rightarrow> addr \<Rightarrow> int \<Rightarrow> 'v memoryStore option" where
  "set_idx s a v =
     (if a < length (mem s) then Some (s\<lparr>mem := (mem s)[a := (mem s ! a)\<lparr>idx := v\<rparr>]\<rparr>)
      else None)"

subsection \<open>The methods of \<^verbatim>\<open>heap.Interface\<close>\<close>

definition Len :: "'v memoryStore \<Rightarrow> nat" where
  "Len s = length (heap s)"

definition Less :: "'v memoryStore \<Rightarrow> nat \<Rightarrow> nat \<Rightarrow> bool option" where
  "Less s i j =
     (if i < Len s \<and> j < Len s then
        do { x \<leftarrow> deref s (heap s ! i);
             y \<leftarrow> deref s (heap s ! j);
             Some (expiredAt x < expiredAt y) }
      else None)"

definition Swap :: "'v memoryStore \<Rightarrow> nat \<Rightarrow> nat \<Rightarrow> 'v memoryStore option" where
  "Swap s i j =
     (if i < Len s \<and> j < Len s then
        do { let s1 = s\<lparr>heap := (heap s)[i := heap s ! j, j := heap s ! i]\<rparr>;
             s2 \<leftarrow> set_idx s1 (heap s1 ! i) (int i);
             set_idx s2 (heap s2 ! j) (int j) }
      else None)"

definition Push :: "'v memoryStore \<Rightarrow> addr \<Rightarrow> 'v memoryStore option" where
  "Push s x =
     do { let n = Len s;
          s1 \<leftarrow> set_idx s x (int n);
          item \<leftarrow> deref s1 x;
          Some (s1\<lparr>heap := heap s1 @ [x], index := (index s1)(key item \<mapsto> x)\<rparr>) }"

definition Pop :: "'v memoryStore \<Rightarrow> (addr \<times> 'v memoryStore) option" where
  "Pop s =
     (let n = Len s in
      if n = 0 then None
      else do { let item = heap s ! (n - 1);
                s1 \<leftarrow> set_idx s item (- 1);
                it \<leftarrow> deref s1 item;
                Some (item, s1\<lparr>heap := take (n - 1) (heap s1),
                                index := (index s1)(key it := None)\<rparr>) })"

subsection \<open>The package \<^verbatim>\<open>container/heap\<close>\<close>

text \<open>
  \<^verbatim>\<open>heap.Push\<close>, \<^verbatim>\<open>heap.Remove\<close> and their loops \<^verbatim>\<open>up\<close> and \<^verbatim>\<open>down\<close> of the Go
  standard library, over the methods above. Positions inside the loops are natural
  numbers: Go computes the parent as \<^verbatim>\<open>(j - 1) / 2\<close> with a division that truncates
  towards zero, which is \<open>0\<close> at \<open>j = 0\<close>, as is \<open>(j - 1) div 2\<close> on \<open>nat\<close>. The test
  \<^verbatim>\<open>j1 < 0\<close> of \<^verbatim>\<open>down\<close>, which catches the overflow of \<^verbatim>\<open>2*i + 1\<close> on a
  slice of more than \<open>2^62\<close> items, has no counterpart.
\<close>

function up :: "'v memoryStore \<Rightarrow> nat \<Rightarrow> 'v memoryStore option" where
  "up s j =
     (let i = (j - 1) div 2 in
      if i = j then Some s
      else case Less s j i of
             None \<Rightarrow> None
           | Some b \<Rightarrow>
               if \<not> b then Some s
               else (case Swap s i j of None \<Rightarrow> None | Some s' \<Rightarrow> up s' i))"
  by pat_completeness auto

termination
  by (relation "measure (\<lambda>(s, j). j)") auto

function down_loop :: "'v memoryStore \<Rightarrow> nat \<Rightarrow> nat \<Rightarrow> ('v memoryStore \<times> nat) option" where
  "down_loop s i n =
     (let j1 = 2 * i + 1 in
      if j1 \<ge> n then Some (s, i)
      else case (if j1 + 1 < n then Less s (j1 + 1) j1 else Some False) of
             None \<Rightarrow> None
           | Some r \<Rightarrow>
               (let j = (if j1 + 1 < n \<and> r then j1 + 1 else j1) in
                case Less s j i of
                  None \<Rightarrow> None
                | Some b \<Rightarrow>
                    if \<not> b then Some (s, i)
                    else (case Swap s i j of
                            None \<Rightarrow> None
                          | Some s' \<Rightarrow> down_loop s' j n)))"
  by pat_completeness auto

termination
  by (relation "measure (\<lambda>(s, i, n). n - i)") auto

definition down :: "'v memoryStore \<Rightarrow> nat \<Rightarrow> nat \<Rightarrow> ('v memoryStore \<times> bool) option" where
  "down s i0 n = do { (s', i) \<leftarrow> down_loop s i0 n; Some (s', i > i0) }"

definition heap_Push :: "'v memoryStore \<Rightarrow> addr \<Rightarrow> 'v memoryStore option" where
  "heap_Push s x = do { s1 \<leftarrow> Push s x; up s1 (Len s1 - 1) }"

definition heap_Remove :: "'v memoryStore \<Rightarrow> int \<Rightarrow> (addr \<times> 'v memoryStore) option" where
  "heap_Remove s i =
     (let n = int (Len s) - 1 in
      if n \<noteq> i then
        (if i < 0 \<or> n < 0 then None
         else do { s1 \<leftarrow> Swap s (nat i) (nat n);
                   (s2, moved) \<leftarrow> down s1 (nat i) (nat n);
                   s3 \<leftarrow> (if \<not> moved then up s2 (nat i) else Some s2);
                   Pop s3 })
      else Pop s)"

subsection \<open>The public methods\<close>

text \<open>
  \<open>Get\<close> returns the value, the store as it leaves it, and the keys for which it
  started a goroutine that calls \<open>Delete\<close>.
\<close>

definition Get :: "'v memoryStore \<Rightarrow> string \<Rightarrow> ('v iface \<times> 'v memoryStore \<times> string list) option" where
  "Get s k =
     (case index s k of
        None \<Rightarrow> Some (GoNil, s, [])
      | Some a \<Rightarrow>
          do { item \<leftarrow> deref s a;
               if \<not> (nowFunc s < expiredAt item) then Some (GoNil, s, [k])
               else Some (val item, s, []) })"

definition Set :: "'v memoryStore \<Rightarrow> string \<Rightarrow> 'v iface \<Rightarrow> duration \<Rightarrow> (error option \<times> 'v memoryStore) option" where
  "Set s k v lifetime =
     (let item = length (mem s);
          s1 = s\<lparr>mem := mem s @ [newMemoryItem k v (nowFunc s + lifetime)]\<rparr>
      in do { s2 \<leftarrow> heap_Push s1 item; Some (None, s2) })"

definition Delete :: "'v memoryStore \<Rightarrow> string \<Rightarrow> (error option \<times> 'v memoryStore) option" where
  "Delete s k =
     (case index s k of
        None \<Rightarrow> Some (None, s)
      | Some a \<Rightarrow>
          do { item \<leftarrow> deref s a;
               (_, s') \<leftarrow> heap_Remove s (idx item);
               Some (None, s') })"

definition Flush :: "'v memoryStore \<Rightarrow> error option \<times> 'v memoryStore" where
  "Flush s = (None, s\<lparr>heap := [], index := Map.empty\<rparr>)"

text \<open>The closure \<^verbatim>\<open>done\<close> of \<^verbatim>\<open>GC\<close>: one locked step of the sweep.\<close>

definition GC_done :: "'v memoryStore \<Rightarrow> (bool \<times> 'v memoryStore) option" where
  "GC_done s =
     (if Len s = 0 then Some (True, s)
      else do { let c = heap s ! 0;
                item \<leftarrow> deref s c;
                if nowFunc s < expiredAt item then Some (True, s)
                else do { (_, s') \<leftarrow> heap_Remove s (idx item); Some (False, s') } })"

text \<open>
  The sweep. The context is polled once per round: \<open>ctx t\<close> says whether
  \<^verbatim>\<open>ctx.Done()\<close> is closed at the \<open>t\<close>-th poll. The clock is read once per round
  and is the store's \<open>nowFunc\<close>.
\<close>

function GC :: "(nat \<Rightarrow> bool) \<Rightarrow> nat \<Rightarrow> 'v memoryStore \<Rightarrow> (error option \<times> 'v memoryStore) option" where
  "GC ctx t s =
     (if ctx t then Some (None, s)
      else case GC_done s of
             None \<Rightarrow> None
           | Some (d, s') \<Rightarrow> if d then Some (None, s') else GC ctx (Suc t) s')"
  by pat_completeness auto

text \<open>
  The items a sweep hands to \<^verbatim>\<open>heap.Remove\<close>, in the order of the rounds: each is
  the \<^verbatim>\<open>s.heap[0]\<close> of its round.
\<close>

function GC_visit :: "(nat \<Rightarrow> bool) \<Rightarrow> nat \<Rightarrow> 'v memoryStore \<Rightarrow> addr list option" where
  "GC_visit ctx t s =
     (if ctx t then Some []
      else case GC_done s of
             None \<Rightarrow> None
           | Some (d, s') \<Rightarrow>
               if d then Some [] else map_option ((#) (heap s ! 0)) (GC_visit ctx (Suc t) s'))"
  by pat_completeness auto

text \<open>
  The states of a store in use: a new store, changed by the public methods and by the
  clock. A sweep enters the lock once per round, so its rounds are the steps.
\<close>

inductive reachable :: "'v memoryStore \<Rightarrow> bool" where
  r_new: "reachable (newMemoryStore now)"
| r_clock: "reachable s \<Longrightarrow> reachable (s\<lparr>nowFunc := now\<rparr>)"
| r_Set: "reachable s \<Longrightarrow> Set s k v lifetime = Some (e, s') \<Longrightarrow> reachable s'"
| r_Delete: "reachable s \<Longrightarrow> Delete s k = Some (e, s') \<Longrightarrow> reachable s'"
| r_Flush: "reachable s \<Longrightarrow> Flush s = (e, s') \<Longrightarrow> reachable s'"
| r_GC: "reachable s \<Longrightarrow> GC_done s = Some (d, s') \<Longrightarrow> reachable s'"

section \<open>The file store\<close>

text \<open>
  Of \<^verbatim>\<open>file.go\<close>: the path of a key, reading an item back, and \<open>Get\<close>. The operating
  system is a parameter: what \<^verbatim>\<open>os.Stat\<close> finds at a path, what \<^verbatim>\<open>os.ReadFile\<close>
  returns for it, the SHA-1 digest in hexadecimal and \<^verbatim>\<open>filepath.Join\<close>. A decoder
  returns a value and an error, as in Go; the value is a pointer to a \<^verbatim>\<open>fileItem\<close> or a
  value of another dynamic type.
\<close>

type_synonym bytes = "nat list"

datatype fnode = Directory | Regular

record syscalls =
  Stat :: "string \<Rightarrow> fnode option"
  ReadFile :: "string \<Rightarrow> error + bytes"
  sha1_hex :: "string \<Rightarrow> string"
  Join :: "string list \<Rightarrow> string"

record 'v fileItem =
  Value :: "'v iface"
  ExpiredAt :: time

datatype 'v decoded = FileItemPtr "'v fileItem" | NotFileItem

record 'v fileStore =
  file_nowFunc :: time
  rootDir :: string
  encoder :: "'v fileItem \<Rightarrow> bytes \<times> error option"
  decoder :: "bytes \<Rightarrow> 'v decoded \<times> error option"

text \<open>A digest has forty characters; \<open>take\<close> and \<open>drop\<close> pick its first two.\<close>

definition filename :: "syscalls \<Rightarrow> 'v fileStore \<Rightarrow> string \<Rightarrow> string" where
  "filename os s k =
     (let hash = sha1_hex os k
      in Join os [rootDir s, take 1 hash, take 1 (drop 1 hash), hash])"

definition isFile :: "syscalls \<Rightarrow> string \<Rightarrow> bool" where
  "isFile os path = (case Stat os path of None \<Rightarrow> False | Some f \<Rightarrow> f \<noteq> Directory)"

definition read :: "syscalls \<Rightarrow> 'v fileStore \<Rightarrow> string \<Rightarrow> error + 'v fileItem" where
  "read os s fname =
     (case ReadFile os fname of
        Inl err \<Rightarrow> Inl (Wrap err ''read file'')
      | Inr binary \<Rightarrow>
          (case decoder s binary of
             (v, Some err) \<Rightarrow> Inl (Wrap err ''decode'')
           | (v, None) \<Rightarrow>
               (case v of FileItemPtr item \<Rightarrow> Inr item | NotFileItem \<Rightarrow> Inl ErrNotExist)))"

text \<open>
  \<open>fileStore_Get\<close> returns the value or the error, and the keys for which it started
  a goroutine that calls \<open>Delete\<close>.
\<close>

definition fileStore_Get :: "syscalls \<Rightarrow> 'v fileStore \<Rightarrow> string \<Rightarrow> (error + 'v iface) \<times> string list" where
  "fileStore_Get os s k =
     (let fname = filename os s k in
      if \<not> isFile os fname then (Inl ErrNotExist, [])
      else case read os s fname of
             Inl err \<Rightarrow> (Inl err, [])
           | Inr item \<Rightarrow>
               if \<not> (ExpiredAt item > file_nowFunc s) then (Inl ErrNotExist, [k])
               else (Inr (Value item), []))"

section \<open>The GC scheduler\<close>

text \<open>
  The goroutine of \<^verbatim>\<open>manager.startGC\<close> and the two channels it waits on, as a
  transition system. The goroutine is at the call of \<^verbatim>\<open>GC\<close>, inside it, at the
  \<^verbatim>\<open>select\<close>, or has returned. The channel \<^verbatim>\<open>ticker.C\<close> has room for one tick: a
  tick that fires while one is waiting is dropped. The channel \<^verbatim>\<open>stop\<close> has no
  buffer: the caller's send waits until the \<^verbatim>\<open>select\<close> takes it, and the caller sends
  once. When both cases of the \<^verbatim>\<open>select\<close> can proceed Go takes either, so both events are
  enabled. The store is left out: what \<^verbatim>\<open>GC\<close> returns comes with the event. The
  counters record the run.
\<close>

datatype place = AtGC | InGC | AtSelect | Returned

datatype stop_chan = Idle | Sending | Taken

record gcLoop =
  place :: place
  ticker_C :: bool
  ticker_live :: bool
  stop :: stop_chan
  gc_calls :: nat
  ticks_taken :: nat
  intervals :: nat
  gc_after_stop :: nat
  errs :: "error list"

datatype event =
  Interval | SendStop | GCBegins | GCReturns "error option" | SelectStop | SelectTick


fun step :: "gcLoop \<Rightarrow> event \<Rightarrow> gcLoop option" where
  "step s Interval =
     (if ticker_live s then Some (s\<lparr>ticker_C := True, intervals := intervals s + 1\<rparr>) else None)"
| "step s SendStop = (if stop s = Idle then Some (s\<lparr>stop := Sending\<rparr>) else None)"
| "step s GCBegins =
     (if place s = AtGC
      then Some (s\<lparr>place := InGC, gc_calls := gc_calls s + 1,
                   gc_after_stop := gc_after_stop s + (if stop s = Sending then 1 else 0)\<rparr>)
      else None)"
| "step s (GCReturns err) =
     (if place s = InGC
      then Some (s\<lparr>place := AtSelect,
                   errs := errs s @ (case err of None \<Rightarrow> [] | Some e \<Rightarrow> [e])\<rparr>)
      else None)"
| "step s SelectStop =
     (if place s = AtSelect \<and> stop s = Sending
      then Some (s\<lparr>place := Returned, stop := Taken, ticker_live := False\<rparr>)
      else None)"
| "step s SelectTick =
     (if place s = AtSelect \<and> ticker_C s
      then Some (s\<lparr>place := AtGC, ticker_C := False, ticks_taken := ticks_taken s + 1\<rparr>)
      else None)"


section \<open>Invariants\<close>

text \<open>
  \<open>exp_at s i\<close> is the expiration of the item in slot \<open>i\<close>. \<open>ptr_ok\<close>: the slots
  hold distinct allocated items, each recording its own slot. \<open>idx_ok\<close>: the map
  sends a key to an item of the heap with that key. \<open>hp f n\<close>: the first \<open>n\<close> slots
  are a binary min-heap under \<open>f\<close>; \<open>edge p c\<close> says slot \<open>c\<close> is a child of slot
  \<open>p\<close>. The three variants leave out the pairs that a loop is still repairing, and
  \<open>child s i n\<close> is the child that \<^verbatim>\<open>down\<close> compares slot \<open>i\<close> with.
  \<open>same_items\<close> and \<open>same_payload\<close> relate two states whose items differ at most in
  the field \<open>idx\<close>, the first with the same map as well. \<open>exp_of s a\<close> is the
  expiration of the item at address \<open>a\<close>. \<open>slots_indexed\<close>: every slot of the heap
  is the one the map knows for its key. \<open>loop_inv\<close> is the invariant of the scheduler.
\<close>

definition edge :: "nat \<Rightarrow> nat \<Rightarrow> bool" where
  "edge p c \<longleftrightarrow> c = 2 * p + 1 \<or> c = 2 * p + 2"

definition hp :: "(nat \<Rightarrow> int) \<Rightarrow> nat \<Rightarrow> bool" where
  "hp f n \<longleftrightarrow> (\<forall>p c. edge p c \<and> c < n \<longrightarrow> f p \<le> f c)"

definition hp_up :: "(nat \<Rightarrow> int) \<Rightarrow> nat \<Rightarrow> nat \<Rightarrow> bool" where
  "hp_up f j n \<longleftrightarrow>
     (\<forall>p c. edge p c \<and> c < n \<and> c \<noteq> j \<longrightarrow> f p \<le> f c) \<and>
     (\<forall>g c. edge g j \<and> edge j c \<and> c < n \<longrightarrow> f g \<le> f c)"

definition hp_down :: "(nat \<Rightarrow> int) \<Rightarrow> nat \<Rightarrow> nat \<Rightarrow> bool" where
  "hp_down f i n \<longleftrightarrow>
     (\<forall>p c. edge p c \<and> c < n \<and> p \<noteq> i \<longrightarrow> f p \<le> f c) \<and>
     (\<forall>g c. edge g i \<and> edge i c \<and> c < n \<longrightarrow> f g \<le> f c)"

definition hp_both :: "(nat \<Rightarrow> int) \<Rightarrow> nat \<Rightarrow> nat \<Rightarrow> bool" where
  "hp_both f i n \<longleftrightarrow>
     (\<forall>p c. edge p c \<and> c < n \<and> p \<noteq> i \<and> c \<noteq> i \<longrightarrow> f p \<le> f c) \<and>
     (\<forall>g c. edge g i \<and> edge i c \<and> c < n \<longrightarrow> f g \<le> f c)"

definition exp_at :: "'v memoryStore \<Rightarrow> nat \<Rightarrow> time" where
  "exp_at s i = expiredAt (mem s ! (heap s ! i))"

definition ptr_ok :: "'v memoryStore \<Rightarrow> bool" where
  "ptr_ok s \<longleftrightarrow>
     distinct (heap s) \<and>
     (\<forall>i. i < length (heap s) \<longrightarrow>
        heap s ! i < length (mem s) \<and> idx (mem s ! (heap s ! i)) = int i)"

definition same_items :: "'v memoryStore \<Rightarrow> 'v memoryStore \<Rightarrow> bool" where
  "same_items s s' \<longleftrightarrow>
     nowFunc s' = nowFunc s \<and> index s' = index s \<and> length (mem s') = length (mem s) \<and>
     (\<forall>a. key (mem s' ! a) = key (mem s ! a) \<and> val (mem s' ! a) = val (mem s ! a) \<and>
          expiredAt (mem s' ! a) = expiredAt (mem s ! a))"

definition child :: "'v memoryStore \<Rightarrow> nat \<Rightarrow> nat \<Rightarrow> nat" where
  "child s i n =
     (if 2 * i + 2 < n \<and> exp_at s (2 * i + 2) < exp_at s (2 * i + 1) then 2 * i + 2
      else 2 * i + 1)"

definition same_payload :: "'v memoryStore \<Rightarrow> 'v memoryStore \<Rightarrow> bool" where
  "same_payload s s' \<longleftrightarrow>
     nowFunc s' = nowFunc s \<and> length (mem s') = length (mem s) \<and>
     (\<forall>a. key (mem s' ! a) = key (mem s ! a) \<and> val (mem s' ! a) = val (mem s ! a) \<and>
          expiredAt (mem s' ! a) = expiredAt (mem s ! a))"

definition idx_ok :: "'v memoryStore \<Rightarrow> bool" where
  "idx_ok s \<longleftrightarrow> (\<forall>k a. index s k = Some a \<longrightarrow> a \<in> set (heap s) \<and> key (mem s ! a) = k)"

definition store_inv :: "'v memoryStore \<Rightarrow> bool" where
  "store_inv s \<longleftrightarrow> ptr_ok s \<and> idx_ok s \<and> hp (exp_at s) (Len s)"

definition exp_of :: "'v memoryStore \<Rightarrow> addr \<Rightarrow> time" where
  "exp_of s a = expiredAt (mem s ! a)"

definition slots_indexed :: "'v memoryStore \<Rightarrow> bool" where
  "slots_indexed s \<longleftrightarrow> (\<forall>a \<in> set (heap s). index s (key (mem s ! a)) = Some a)"


section \<open>Stores of the tests\<close>

text \<open>
  The store of the test \<^verbatim>\<open>TestMemoryStore_GC\<close>: keys \<^verbatim>\<open>"1"\<close>, \<^verbatim>\<open>"2"\<close>, \<^verbatim>\<open>"3"\<close>
  written at clock \<open>0\<close> with lifetimes of one, two and three seconds.
\<close>

definition second :: duration where "second = 1000000000"

definition store1 :: "string memoryStore" where
  "store1 = \<lparr>nowFunc = 0, heap = [0], index = [''1'' \<mapsto> 0],
              mem = [\<lparr>key = ''1'', val = GoVal ''1'', expiredAt = 1000000000, idx = 0\<rparr>]\<rparr>"

definition store12 :: "string memoryStore" where
  "store12 = \<lparr>nowFunc = 0, heap = [0, 1], index = [''1'' \<mapsto> 0, ''2'' \<mapsto> 1],
              mem = [\<lparr>key = ''1'', val = GoVal ''1'', expiredAt = 1000000000, idx = 0\<rparr>,
                     \<lparr>key = ''2'', val = GoVal ''2'', expiredAt = 2000000000, idx = 1\<rparr>]\<rparr>"

definition store123 :: "string memoryStore" where
  "store123 = \<lparr>nowFunc = 0, heap = [0, 1, 2], index = [''1'' \<mapsto> 0, ''2'' \<mapsto> 1, ''3'' \<mapsto> 2],
              mem = [\<lparr>key = ''1'', val = GoVal ''1'', expiredAt = 1000000000, idx = 0\<rparr>,
                     \<lparr>key = ''2'', val = GoVal ''2'', expiredAt = 2000000000, idx = 1\<rparr>,
                     \<lparr>key = ''3'', val = GoVal ''3'', expiredAt = 3000000000, idx = 2\<rparr>]\<rparr>"

text \<open>
  A store in which the key \<^verbatim>\<open>"k"\<close> is written once, one in which it is written
  twice, and one that holds a \<^verbatim>\<open>nil\<close> value.
\<close>

definition store_k :: "string memoryStore" where
  "store_k = \<lparr>nowFunc = 0, heap = [0], index = [''k'' \<mapsto> 0],
              mem = [\<lparr>key = ''k'', val = GoVal ''a'', expiredAt = 1000000000, idx = 0\<rparr>]\<rparr>"

definition store_kk :: "string memoryStore" where
  "store_kk = \<lparr>nowFunc = 0, heap = [0, 1], index = [''k'' \<mapsto> 1],
              mem = [\<lparr>key = ''k'', val = GoVal ''a'', expiredAt = 1000000000, idx = 0\<rparr>,
                     \<lparr>key = ''k'', val = GoVal ''b'', expiredAt = 2000000000, idx = 1\<rparr>]\<rparr>"

definition store_nil :: "string memoryStore" where
  "store_nil = \<lparr>nowFunc = 0, heap = [0], index = [''k'' \<mapsto> 0],
              mem = [\<lparr>key = ''k'', val = GoNil, expiredAt = 1000000000, idx = 0\<rparr>]\<rparr>"

text \<open>
  A file system with one regular file at every path, holding the bytes \<open>[7]\<close>, and two
  stores: one whose decoder fails on those bytes, one whose decoder yields a value that
  is not a \<^verbatim>\<open>fileItem\<close>.
\<close>

definition os1 :: syscalls where
  "os1 = \<lparr>Stat = (\<lambda>p. Some Regular), ReadFile = (\<lambda>p. Inr [7]), sha1_hex = (\<lambda>k. k),
          Join = concat\<rparr>"

definition store_bad :: "string fileStore" where
  "store_bad = \<lparr>file_nowFunc = 0, rootDir = ''cache'', encoder = (\<lambda>i. ([], None)),
                decoder = (\<lambda>b. (NotFileItem, Some (ErrOther ''unexpected EOF'')))\<rparr>"

definition store_foreign :: "string fileStore" where
  "store_foreign = \<lparr>file_nowFunc = 0, rootDir = ''cache'', encoder = (\<lambda>i. ([], None)),
                decoder = (\<lambda>b. (NotFileItem, None))\<rparr>"

section \<open>The heap loops keep the invariants\<close>

lemma edge_parent: "0 < c \<Longrightarrow> edge ((c - 1) div 2) c"
  unfolding edge_def by presburger

lemma edge_less: "edge p c \<Longrightarrow> p < c"
  unfolding edge_def by auto

lemma edge_unique: "edge p c \<Longrightarrow> edge q c \<Longrightarrow> p = q"
  unfolding edge_def by presburger

lemma hp_root_min: "hp f n \<Longrightarrow> c < n \<Longrightarrow> f 0 \<le> f c"
proof (induction c rule: less_induct)
  case (less c)
  show ?case
  proof (cases "c = 0")
    case True then show ?thesis by simp
  next
    case False
    then have "0 < c" by simp
    then have e: "edge ((c - 1) div 2) c" by (rule edge_parent)
    then have lt: "(c - 1) div 2 < c" by (rule edge_less)
    from less.prems e have "f ((c - 1) div 2) \<le> f c" by (auto simp: hp_def)
    moreover from less.IH[OF lt less.prems(1)] lt less.prems(2) have "f 0 \<le> f ((c - 1) div 2)" by simp
    ultimately show ?thesis by simp
  qed
qed

lemma hp_up_step:
  assumes h: "hp_up f j n" and e: "edge i j" and lt: "f j < f i" and jn: "j < n"
  shows "hp_up (f(i := f j, j := f i)) i n"
proof -
  let ?f = "f(i := f j, j := f i)"
  from e have ij: "i < j" by (rule edge_less)
  have a: "?f p \<le> ?f c" if pc: "edge p c" and cn: "c < n" and ci: "c \<noteq> i" for p c
  proof (cases "c = j")
    case True
    with pc e have "p = i" by (auto dest: edge_unique)
    with True ij lt show ?thesis by simp
  next
    case cj: False
    from h pc cn cj have fc: "f p \<le> f c" by (auto simp: hp_up_def)
    show ?thesis
    proof (cases "p = i")
      case True
      with fc lt ci cj show ?thesis by simp
    next
      case pi: False
      show ?thesis
      proof (cases "p = j")
        case True
        with h e pc cn have "f i \<le> f c" by (auto simp: hp_up_def)
        with True ci cj ij show ?thesis by simp
      next
        case False
        with pi ci cj fc show ?thesis by simp
      qed
    qed
  qed
  have b: "?f g \<le> ?f c" if gi: "edge g i" and ic: "edge i c" and cn: "c < n" for g c
  proof -
    from gi have g: "g < i" by (rule edge_less)
    from ic have c: "i < c" by (rule edge_less)
    from h gi ij jn have gi': "f g \<le> f i" by (auto simp: hp_up_def)
    show ?thesis
    proof (cases "c = j")
      case True
      with g ij gi' show ?thesis by simp
    next
      case False
      with h ic cn have "f i \<le> f c" by (auto simp: hp_up_def)
      with gi' False g c ij show ?thesis by simp
    qed
  qed
  from a b show ?thesis unfolding hp_up_def by blast
qed

lemma hp_up_stop:
  assumes h: "hp_up f j n" and st: "j = 0 \<or> \<not> f j < f ((j - 1) div 2)"
  shows "hp f n"
proof -
  have "f p \<le> f c" if pc: "edge p c" and cn: "c < n" for p c
  proof (cases "c = j")
    case False
    with h pc cn show ?thesis by (auto simp: hp_up_def)
  next
    case True
    with pc have j0: "0 < j" by (auto dest: edge_less)
    from True pc have "edge p j" by simp
    then have "p = (j - 1) div 2" using edge_parent[OF j0] by (rule edge_unique)
    with st j0 True show ?thesis by auto
  qed
  then show ?thesis unfolding hp_def by blast
qed

lemma hp_down_both: "hp_down f i n \<Longrightarrow> hp_both f i n"
  unfolding hp_down_def hp_both_def by blast

lemma hp_hp_both:
  assumes "hp f n"
  shows "hp_both f i n"
proof -
  have "f g \<le> f c" if gi: "edge g i" and ic: "edge i c" and cn: "c < n" for g c
  proof -
    from ic cn have "i < n" by (auto dest: edge_less)
    with assms gi have "f g \<le> f i" by (auto simp: hp_def)
    moreover from assms ic cn have "f i \<le> f c" by (auto simp: hp_def)
    ultimately show ?thesis by simp
  qed
  with assms show ?thesis unfolding hp_def hp_both_def by blast
qed

lemma hp_both_step:
  assumes h: "hp_both f i n" and e: "edge i j" and jn: "j < n"
    and mn: "\<forall>c. edge i c \<and> c < n \<longrightarrow> f j \<le> f c" and lt: "f j < f i"
  shows "hp_down (f(i := f j, j := f i)) j n"
proof -
  let ?f = "f(i := f j, j := f i)"
  from e have ij: "i < j" by (rule edge_less)
  have a: "?f p \<le> ?f c" if pc: "edge p c" and cn: "c < n" and pj: "p \<noteq> j" for p c
  proof (cases "p = i")
    case True
    with pc cn mn have "f j \<le> f c" by simp
    with True lt ij pc show ?thesis by (auto dest: edge_less)
  next
    case pi: False
    show ?thesis
    proof (cases "c = i")
      case True
      with h pc e jn have "f p \<le> f j" by (auto simp: hp_both_def)
      with True pi pj ij show ?thesis by simp
    next
      case ci: False
      have cj: "c \<noteq> j" using pc e pi by (auto dest: edge_unique)
      from h pc cn pi ci have "f p \<le> f c" by (auto simp: hp_both_def)
      with pi pj ci cj show ?thesis by simp
    qed
  qed
  have b: "?f g \<le> ?f c" if gj: "edge g j" and jc: "edge j c" and cn: "c < n" for g c
  proof -
    from gj e have gi: "g = i" by (rule edge_unique)
    from jc have c: "j < c" by (rule edge_less)
    from h jc cn ij c have "f j \<le> f c" by (auto simp: hp_both_def)
    with gi ij c show ?thesis by simp
  qed
  from a b show ?thesis unfolding hp_down_def by blast
qed

lemma hp_down_stop:
  assumes h: "hp_down f i n" and st: "\<forall>c. edge i c \<and> c < n \<longrightarrow> f i \<le> f c"
  shows "hp f n"
  using assms unfolding hp_down_def hp_def by blast

lemma hp_both_stop:
  assumes h: "hp_both f i n" and st: "\<forall>c. edge i c \<and> c < n \<longrightarrow> f i \<le> f c"
  shows "hp_up f i n"
  using assms unfolding hp_both_def hp_up_def by (metis edge_less less_irrefl)

lemma hp_cong:
  assumes "hp f n" and eq: "\<And>c. c < n \<Longrightarrow> g c = f c"
  shows "hp g n"
proof -
  have "g p \<le> g c" if pc: "edge p c" and cn: "c < n" for p c
  proof -
    from pc cn have "p < n" by (auto dest: edge_less)
    with assms pc cn show ?thesis by (auto simp: hp_def)
  qed
  then show ?thesis unfolding hp_def by blast
qed

lemma hp_mono: "hp f n \<Longrightarrow> m \<le> n \<Longrightarrow> hp f m"
  unfolding hp_def by auto

lemma hp_push:
  assumes "hp f n" and eq: "\<And>c. c < n \<Longrightarrow> g c = f c"
  shows "hp_up g n (Suc n)"
proof -
  from assms have "hp g n" by (rule hp_cong)
  then have "g p \<le> g c" if "edge p c" "c < Suc n" "c \<noteq> n" for p c
    using that by (auto simp: hp_def)
  moreover have "g a \<le> g c" if "edge n c" "c < Suc n" for a c
    using that by (auto dest: edge_less)
  ultimately show ?thesis unfolding hp_up_def by blast
qed

lemma hp_swap_last:
  assumes h: "hp f (Suc n)" and i: "i < n"
  shows "hp_both (f(i := f n, n := f i)) i n"
proof -
  let ?f = "f(i := f n, n := f i)"
  have a: "?f p \<le> ?f c" if pc: "edge p c" and cn: "c < n" and pi: "p \<noteq> i" and ci: "c \<noteq> i" for p c
  proof -
    from pc cn have "p < n" by (auto dest: edge_less)
    moreover from h pc cn have "f p \<le> f c" by (auto simp: hp_def)
    ultimately show ?thesis using cn pi ci by simp
  qed
  have b: "?f g \<le> ?f c" if gi: "edge g i" and ic: "edge i c" and cn: "c < n" for g c
  proof -
    from gi have g: "g < i" by (rule edge_less)
    from ic have c: "i < c" by (rule edge_less)
    from h gi i have "f g \<le> f i" by (auto simp: hp_def)
    moreover from h ic cn have "f i \<le> f c" by (auto simp: hp_def)
    ultimately show ?thesis using g c i cn by simp
  qed
  from a b show ?thesis unfolding hp_both_def by blast
qed

lemma same_items_refl: "same_items s s"
  by (simp add: same_items_def)

lemma same_items_trans: "same_items s s1 \<Longrightarrow> same_items s1 s2 \<Longrightarrow> same_items s s2"
  by (simp add: same_items_def)

lemma set_idx_Some:
  "a < length (mem s) \<Longrightarrow> set_idx s a v = Some (s\<lparr>mem := (mem s)[a := (mem s ! a)\<lparr>idx := v\<rparr>]\<rparr>)"
  by (simp add: set_idx_def)

lemma set_idx_same_items: "set_idx s a v = Some s' \<Longrightarrow> same_items s s' \<and> heap s' = heap s"
  by (auto simp: set_idx_def same_items_def nth_list_update split: if_splits)

lemma Swap_heap:
  "Swap s i j = Some s' \<Longrightarrow> heap s' = (heap s)[i := heap s ! j, j := heap s ! i] \<and> i < Len s \<and> j < Len s"
  by (auto simp: Swap_def set_idx_def Let_def bind_eq_Some_conv split: if_splits)

lemma Swap_same_items: "Swap s i j = Some s' \<Longrightarrow> same_items s s'"
  by (auto simp: Swap_def set_idx_def Let_def bind_eq_Some_conv same_items_def nth_list_update split: if_splits)

lemma Swap_Len: "Swap s i j = Some s' \<Longrightarrow> Len s' = Len s"
  by (auto simp: Len_def dest: Swap_heap)

lemma Swap_set: "Swap s i j = Some s' \<Longrightarrow> set (heap s') = set (heap s)"
  using Swap_heap[of s i j s'] by (simp add: Len_def set_swap)

lemma Swap_exp_at:
  assumes "Swap s i j = Some s'"
  shows "exp_at s' = (exp_at s)(i := exp_at s j, j := exp_at s i)"
proof
  fix c
  from assms have h: "heap s' = (heap s)[i := heap s ! j, j := heap s ! i]" and i: "i < length (heap s)" and j: "j < length (heap s)"
    using Swap_heap[OF assms] by (auto simp: Len_def)
  from Swap_same_items[OF assms] have e: "\<And>a. expiredAt (mem s' ! a) = expiredAt (mem s ! a)"
    by (simp add: same_items_def)
  show "exp_at s' c = ((exp_at s)(i := exp_at s j, j := exp_at s i)) c"
    using i j by (auto simp: exp_at_def e h nth_list_update)
qed

lemma Swap_Some:
  assumes "ptr_ok s" "i < Len s" "j < Len s"
  shows "\<exists>s'. Swap s i j = Some s'"
  using assms by (auto simp: Swap_def set_idx_def Let_def ptr_ok_def Len_def nth_list_update)

lemma Swap_ptr_ok:
  assumes p: "ptr_ok s" and sw: "Swap s i j = Some s'"
  shows "ptr_ok s'"
proof -
  from Swap_heap[OF sw] have h: "heap s' = (heap s)[i := heap s ! j, j := heap s ! i]"
    and i: "i < length (heap s)" and j: "j < length (heap s)" by (auto simp: Len_def)
  from p have d: "distinct (heap s)" and v: "\<And>k. k < length (heap s) \<Longrightarrow> heap s ! k < length (mem s)"
    and ix: "\<And>k. k < length (heap s) \<Longrightarrow> idx (mem s ! (heap s ! k)) = int k"
    by (auto simp: ptr_ok_def)
  have m: "mem s' = ((mem s)[heap s ! j := (mem s ! (heap s ! j))\<lparr>idx := int i\<rparr>])
                     [heap s ! i := (((mem s)[heap s ! j := (mem s ! (heap s ! j))\<lparr>idx := int i\<rparr>]) ! (heap s ! i))\<lparr>idx := int j\<rparr>]"
    using sw i j v[OF i] v[OF j]
    by (auto simp: Swap_def set_idx_def Let_def Len_def bind_eq_Some_conv nth_list_update split: if_splits)
  have d': "distinct (heap s')"
    unfolding h using d i j by (simp add: distinct_swap)
  have "heap s' ! k < length (mem s') \<and> idx (mem s' ! (heap s' ! k)) = int k" if k: "k < length (heap s')" for k
  proof -
    from k have k': "k < length (heap s)" by (simp add: h)
    have ne: "\<And>a b. a < length (heap s) \<Longrightarrow> b < length (heap s) \<Longrightarrow> (heap s ! a = heap s ! b) = (a = b)"
      using d by (simp add: nth_eq_iff_index_eq)
    show ?thesis
      using k' i j v[OF k'] v[OF i] v[OF j] ix[OF k'] ix[OF i] ix[OF j] ne[OF k' i] ne[OF k' j] ne[OF i j]
      by (auto simp: h m nth_list_update)
  qed
  with d' show ?thesis by (simp add: ptr_ok_def)
qed

declare up.simps [simp del] down_loop.simps [simp del]

lemma Less_SomeD:
  "Less s i j = Some b \<Longrightarrow> i < Len s \<and> j < Len s \<and> b = (exp_at s i < exp_at s j)"
  by (auto simp: Less_def deref_def exp_at_def bind_eq_Some_conv split: if_splits)

lemma Less_Some:
  "ptr_ok s \<Longrightarrow> i < Len s \<Longrightarrow> j < Len s \<Longrightarrow> Less s i j = Some (exp_at s i < exp_at s j)"
  by (simp add: Less_def deref_def exp_at_def ptr_ok_def Len_def)

lemma parent_neq: "0 < j \<Longrightarrow> (j - 1) div 2 \<noteq> (j::nat)"
  by presburger

lemma up_0: "up s 0 = Some s"
  by (simp add: up.simps[of s 0])

lemma up_cases:
  assumes "up s j = Some s'"
  obtains (stop0) "j = 0" "s' = s"
  | (stop) "0 < j" "Less s j ((j - 1) div 2) = Some False" "s' = s"
  | (step) s1 where "0 < j" "Less s j ((j - 1) div 2) = Some True"
      "Swap s ((j - 1) div 2) j = Some s1" "up s1 ((j - 1) div 2) = Some s'"
proof (cases "j = 0")
  case True
  with assms have "s' = s" by (simp add: up_0)
  with True show ?thesis by (rule stop0)
next
  case False
  then have j: "0 < j" and ne: "(j - 1) div 2 \<noteq> j" using parent_neq[of j] by auto
  from assms ne obtain b where b: "Less s j ((j - 1) div 2) = Some b"
    by (auto simp: up.simps[of s j] Let_def split: option.splits)
  show ?thesis
  proof (cases b)
    case False
    with assms ne b have "s' = s" by (simp add: up.simps[of s j] Let_def)
    with j b False show ?thesis by (auto intro: stop)
  next
    case True
    with assms ne b obtain s1 where "Swap s ((j - 1) div 2) j = Some s1" "up s1 ((j - 1) div 2) = Some s'"
      by (auto simp: up.simps[of s j] Let_def split: option.splits)
    with j b True show ?thesis by (auto intro: step)
  qed
qed

lemma up_frame:
  "up s j = Some s' \<Longrightarrow>
     Len s' = Len s \<and> same_items s s' \<and> set (heap s') = set (heap s) \<and>
     (ptr_ok s \<longrightarrow> ptr_ok s') \<and> (\<forall>c>j. heap s' ! c = heap s ! c)"
proof (induction s j arbitrary: s' rule: up.induct)
  case (1 s j)
  from "1.prems" show ?case
  proof (cases rule: up_cases)
    case stop0
    then show ?thesis by (simp add: same_items_refl)
  next
    case stop
    then show ?thesis by (simp add: same_items_refl)
  next
    case (step s1)
    let ?i = "(j - 1) div 2"
    from step have ne: "?i \<noteq> j" using parent_neq[of j] by simp
    have ij: "?i < j" using step(1) by presburger
    have IH: "Len s' = Len s1 \<and> same_items s1 s' \<and> set (heap s') = set (heap s1) \<and>
     (ptr_ok s1 \<longrightarrow> ptr_ok s') \<and> (\<forall>c>?i. heap s' ! c = heap s1 ! c)"
      using "1.IH"[of ?i True s1 s'] ne step by simp
    have h1: "\<forall>c>j. heap s1 ! c = heap s ! c"
      using Swap_heap[OF step(3)] ij by (auto simp: nth_list_update)
    show ?thesis
      using IH Swap_Len[OF step(3)] Swap_same_items[OF step(3)] Swap_set[OF step(3)]
        Swap_ptr_ok[OF _ step(3)] h1 ij
      by (auto intro: same_items_trans)
  qed
qed

lemma up_Some:
  "ptr_ok s \<Longrightarrow> j < Len s \<Longrightarrow> \<exists>s'. up s j = Some s'"
proof (induction s j rule: up.induct)
  case (1 s j)
  let ?i = "(j - 1) div 2"
  show ?case
  proof (cases "j = 0")
    case True
    then show ?thesis by (simp add: up_0)
  next
    case False
    then have ne: "?i \<noteq> j" and ij: "?i < j" using parent_neq[of j] by (simp, presburger)
    from "1.prems" ij have L: "Less s j ?i = Some (exp_at s j < exp_at s ?i)"
      by (simp add: Less_Some)
    show ?thesis
    proof (cases "exp_at s j < exp_at s ?i")
      case False
      with L ne show ?thesis by (simp add: up.simps[of s j] Let_def)
    next
      case True
      from "1.prems" ij obtain s1 where sw: "Swap s ?i j = Some s1"
        using Swap_Some[of s ?i j] by auto
      have "\<exists>s'. up s1 ?i = Some s'"
        using "1.IH"[of ?i True s1] ne L True sw Swap_ptr_ok[OF "1.prems"(1) sw] Swap_Len[OF sw] "1.prems"(2) ij
        by simp
      with L ne True sw show ?thesis by (simp add: up.simps[of s j] Let_def)
    qed
  qed
qed

lemma up_hp:
  "up s j = Some s' \<Longrightarrow> hp_up (exp_at s) j n \<Longrightarrow> j < n \<Longrightarrow> hp (exp_at s') n"
proof (induction s j arbitrary: s' rule: up.induct)
  case (1 s j)
  from "1.prems"(1) show ?case
  proof (cases rule: up_cases)
    case stop0
    with "1.prems" show ?thesis by (auto intro: hp_up_stop)
  next
    case stop
    from Less_SomeD[OF stop(2)] have "\<not> exp_at s j < exp_at s ((j - 1) div 2)" by simp
    with "1.prems" stop show ?thesis by (auto intro: hp_up_stop)
  next
    case (step s1)
    let ?i = "(j - 1) div 2"
    from step have ne: "?i \<noteq> j" using parent_neq[of j] by simp
    have e: "edge ?i j" using step(1) by (rule edge_parent)
    from Less_SomeD[OF step(2)] have lt: "exp_at s j < exp_at s ?i" by simp
    have "hp_up (exp_at s1) ?i n"
      unfolding Swap_exp_at[OF step(3)] using "1.prems"(2) e lt "1.prems"(3) by (rule hp_up_step)
    moreover have "?i < n" using edge_less[OF e] "1.prems"(3) by simp
    ultimately show ?thesis
      using "1.IH"[of ?i True s1 s'] ne step by simp
  qed
qed

lemma child_props:
  assumes "2 * i + 1 < n"
  shows "edge i (child s i n)" "child s i n < n" "i < child s i n"
    "\<forall>c. edge i c \<and> c < n \<longrightarrow> exp_at s (child s i n) \<le> exp_at s c"
  using assms by (auto simp: child_def edge_def)

lemma down_loop_leaf: "n \<le> 2 * i + 1 \<Longrightarrow> down_loop s i n = Some (s, i)"
  by (simp add: down_loop.simps[of s i n])

lemma down_loop_unfold:
  assumes "2 * i + 1 < n"
  shows "down_loop s i n =
     (case (if 2 * i + 2 < n then Less s (2 * i + 2) (2 * i + 1) else Some False) of
        None \<Rightarrow> None
      | Some r \<Rightarrow>
          (case Less s (if 2 * i + 2 < n \<and> r then 2 * i + 2 else 2 * i + 1) i of
             None \<Rightarrow> None
           | Some b \<Rightarrow>
               if \<not> b then Some (s, i)
               else (case Swap s i (if 2 * i + 2 < n \<and> r then 2 * i + 2 else 2 * i + 1) of
                       None \<Rightarrow> None
                     | Some s1 \<Rightarrow>
                         down_loop s1 (if 2 * i + 2 < n \<and> r then 2 * i + 2 else 2 * i + 1) n)))"
proof -
  have e: "2 * i + 1 + 1 = 2 * i + 2" by simp
  from assms have c: "\<not> n \<le> 2 * i + 1" by simp
  show ?thesis
    by (subst down_loop.simps) (simp only: Let_def e c if_False)
qed

lemma down_loop_cases:
  assumes "down_loop s i n = Some (s', i')"
  obtains (leaf) "n \<le> 2 * i + 1" "s' = s" "i' = i"
  | (stop) "2 * i + 1 < n" "Less s (child s i n) i = Some False" "s' = s" "i' = i"
  | (step) s1 where "2 * i + 1 < n" "Less s (child s i n) i = Some True"
      "Swap s i (child s i n) = Some s1" "down_loop s1 (child s i n) n = Some (s', i')"
proof (cases "n \<le> 2 * i + 1")
  case True
  with assms have "s' = s \<and> i' = i" by (simp add: down_loop_leaf)
  with True show ?thesis by (auto intro: leaf)
next
  case False
  then have lt: "2 * i + 1 < n" by simp
  note u = assms[unfolded down_loop_unfold[OF lt]]
  from u obtain r where
    r: "(if 2 * i + 2 < n then Less s (2 * i + 2) (2 * i + 1) else Some False) = Some r"
    by (cases "if 2 * i + 2 < n then Less s (2 * i + 2) (2 * i + 1) else Some False") auto
  have jc: "(if 2 * i + 2 < n \<and> r then 2 * i + 2 else 2 * i + 1) = child s i n"
  proof (cases "2 * i + 2 < n")
    case True
    with r have "Less s (2 * i + 2) (2 * i + 1) = Some r" by simp
    from Less_SomeD[OF this] show ?thesis by (simp add: child_def)
  next
    case False
    then show ?thesis by (simp add: child_def)
  qed
  note u2 = u[unfolded r option.case jc]
  from u2 obtain b where b: "Less s (child s i n) i = Some b"
    by (cases "Less s (child s i n) i") auto
  note u3 = u2[unfolded b option.case]
  show ?thesis
  proof (cases b)
    case False
    with u3 have "s' = s \<and> i' = i" by simp
    with lt b False show ?thesis by (auto intro: stop)
  next
    case True
    with u3 obtain s1 where
      "Swap s i (child s i n) = Some s1" "down_loop s1 (child s i n) n = Some (s', i')"
      by (cases "Swap s i (child s i n)") auto
    with lt b True show ?thesis by (auto intro: step)
  qed
qed

lemma down_loop_induct [case_names loop]:
  assumes "\<And>s i. (\<And>s1. 2 * i + 1 < n \<Longrightarrow> Less s (child s i n) i = Some True \<Longrightarrow>
                 Swap s i (child s i n) = Some s1 \<Longrightarrow> P s1 (child s i n)) \<Longrightarrow> P s i"
  shows "P s i"
proof (induction "n - i" arbitrary: s i rule: less_induct)
  case less
  show ?case
  proof (rule assms)
    fix s1
    assume lt: "2 * i + 1 < n"
    from child_props(2,3)[OF lt, of s] have "n - child s i n < n - i" by simp
    then show "P s1 (child s i n)" by (rule less.hyps)
  qed
qed

lemma down_loop_frame:
  "down_loop s i n = Some (s', i') \<Longrightarrow>
     Len s' = Len s \<and> same_items s s' \<and> set (heap s') = set (heap s) \<and>
     (ptr_ok s \<longrightarrow> ptr_ok s') \<and> (\<forall>c\<ge>n. heap s' ! c = heap s ! c) \<and>
     i \<le> i' \<and> (i' = i \<longrightarrow> s' = s)"
proof (induction s i arbitrary: s' i' rule: down_loop_induct[where n = n])
  case (loop s i)
  from loop.prems show ?case
  proof (cases rule: down_loop_cases)
    case leaf
    then show ?thesis by (simp add: same_items_refl)
  next
    case stop
    then show ?thesis by (simp add: same_items_refl)
  next
    case (step s1)
    let ?j = "child s i n"
    note cp = child_props[OF step(1), of s]
    note IH = loop.IH[OF step(1,2,3,4)]
    have h1: "\<forall>c\<ge>n. heap s1 ! c = heap s ! c"
      using Swap_heap[OF step(3)] cp(2,3) by (auto simp: nth_list_update)
    show ?thesis
      using IH Swap_Len[OF step(3)] Swap_same_items[OF step(3)] Swap_set[OF step(3)]
        Swap_ptr_ok[OF _ step(3)] h1 cp(3)
      by (auto intro: same_items_trans)
  qed
qed

lemma down_loop_Some:
  "ptr_ok s \<Longrightarrow> n \<le> Len s \<Longrightarrow> \<exists>r. down_loop s i n = Some r"
proof (induction s i rule: down_loop_induct[where n = n])
  case (loop s i)
  show ?case
  proof (cases "n \<le> 2 * i + 1")
    case True
    then show ?thesis by (simp add: down_loop_leaf)
  next
    case False
    then have lt: "2 * i + 1 < n" by simp
    note cp = child_props[OF lt, of s]
    have r: "(if 2 * i + 2 < n then Less s (2 * i + 2) (2 * i + 1) else Some False) =
       Some (2 * i + 2 < n \<and> exp_at s (2 * i + 2) < exp_at s (2 * i + 1))"
      using loop.prems lt by (simp add: Less_Some)
    have jc: "(if 2 * i + 2 < n \<and> (2 * i + 2 < n \<and> exp_at s (2 * i + 2) < exp_at s (2 * i + 1))
               then 2 * i + 2 else 2 * i + 1) = child s i n"
      by (simp add: child_def)
    have L: "Less s (child s i n) i = Some (exp_at s (child s i n) < exp_at s i)"
      using loop.prems cp(2,3) by (simp add: Less_Some)
    show ?thesis
    proof (cases "exp_at s (child s i n) < exp_at s i")
      case False
      with L show ?thesis
        unfolding down_loop_unfold[OF lt] r option.case jc by simp
    next
      case True
      from loop.prems cp(2,3) obtain s1 where sw: "Swap s i (child s i n) = Some s1"
        using Swap_Some[of s i "child s i n"] by auto
      have "\<exists>r. down_loop s1 (child s i n) n = Some r"
        using loop.IH[OF lt _ sw] L True Swap_ptr_ok[OF loop.prems(1) sw] Swap_Len[OF sw] loop.prems(2)
        by simp
      with L True sw show ?thesis
        unfolding down_loop_unfold[OF lt] r option.case jc by simp
    qed
  qed
qed

lemma down_loop_hp:
  "down_loop s i n = Some (s', i') \<Longrightarrow> hp_down (exp_at s) i n \<Longrightarrow> hp (exp_at s') n"
proof (induction s i arbitrary: s' i' rule: down_loop_induct[where n = n])
  case (loop s i)
  from loop.prems(1) show ?case
  proof (cases rule: down_loop_cases)
    case leaf
    then have "\<forall>c. edge i c \<and> c < n \<longrightarrow> exp_at s i \<le> exp_at s c"
      by (auto simp: edge_def)
    with loop.prems(2) leaf show ?thesis by (auto intro: hp_down_stop)
  next
    case stop
    note cp = child_props[OF stop(1), of s]
    from Less_SomeD[OF stop(2)] have "exp_at s i \<le> exp_at s (child s i n)" by simp
    with cp(4) have "\<forall>c. edge i c \<and> c < n \<longrightarrow> exp_at s i \<le> exp_at s c"
      by (meson order_trans)
    with loop.prems(2) stop show ?thesis by (auto intro: hp_down_stop)
  next
    case (step s1)
    note cp = child_props[OF step(1), of s]
    from Less_SomeD[OF step(2)] have lt: "exp_at s (child s i n) < exp_at s i" by simp
    have "hp_down (exp_at s1) (child s i n) n"
      unfolding Swap_exp_at[OF step(3)]
      using hp_down_both[OF loop.prems(2)] cp(1,2,4) lt by (rule hp_both_step)
    then show ?thesis using loop.IH[OF step(1,2,3,4)] by simp
  qed
qed

text \<open>The case of \<^verbatim>\<open>heap.Remove\<close>: slot \<open>i\<close> may be out of order both ways.\<close>

lemma down_loop_both:
  assumes d: "down_loop s i n = Some (s', i')" and h: "hp_both (exp_at s) i n"
  shows "if i < i' then hp (exp_at s') n else s' = s \<and> hp_up (exp_at s) i n"
  using d
proof (cases rule: down_loop_cases)
  case leaf
  then have "\<forall>c. edge i c \<and> c < n \<longrightarrow> exp_at s i \<le> exp_at s c"
    by (auto simp: edge_def)
  with h leaf show ?thesis by (auto intro: hp_both_stop)
next
  case stop
  note cp = child_props[OF stop(1), of s]
  from Less_SomeD[OF stop(2)] have "exp_at s i \<le> exp_at s (child s i n)" by simp
  with cp(4) have "\<forall>c. edge i c \<and> c < n \<longrightarrow> exp_at s i \<le> exp_at s c"
    by (meson order_trans)
  with h stop show ?thesis by (auto intro: hp_both_stop)
next
  case (step s1)
  note cp = child_props[OF step(1), of s]
  from Less_SomeD[OF step(2)] have lt: "exp_at s (child s i n) < exp_at s i" by simp
  have "hp_down (exp_at s1) (child s i n) n"
    unfolding Swap_exp_at[OF step(3)]
    using h cp(1,2,4) lt by (rule hp_both_step)
  with step(4) have "hp (exp_at s') n" by (rule down_loop_hp)
  moreover from down_loop_frame[OF step(4)] cp(3) have "i < i'" by simp
  ultimately show ?thesis by simp
qed

lemma same_items_payload: "same_items s s' \<Longrightarrow> same_payload s s' \<and> index s' = index s"
  by (simp add: same_items_def same_payload_def)


lemma same_payload_trans: "same_payload s s1 \<Longrightarrow> same_payload s1 s2 \<Longrightarrow> same_payload s s2"
  by (simp add: same_payload_def)

lemma set_idx_SomeD:
  "set_idx s a v = Some s' \<Longrightarrow>
     a < length (mem s) \<and> heap s' = heap s \<and> index s' = index s \<and> nowFunc s' = nowFunc s \<and>
     mem s' = (mem s)[a := (mem s ! a)\<lparr>idx := v\<rparr>]"
  by (auto simp: set_idx_def split: if_splits)

lemma Pop_SomeD:
  assumes "Pop s = Some (a, s')"
  shows "0 < Len s" "a = last (heap s)" "heap s' = butlast (heap s)"
    "index s' = (index s)(key (mem s ! a) := None)" "same_payload s s'"
    "mem s' = (mem s)[a := (mem s ! a)\<lparr>idx := - 1\<rparr>]" "a < length (mem s)"
proof -
  from assms have n: "0 < Len s" by (auto simp: Pop_def Let_def split: if_splits)
  then have ne: "heap s \<noteq> []" by (auto simp: Len_def)
  from assms n obtain s1 it where
    a: "a = heap s ! (Len s - 1)" and s1: "set_idx s a (- 1) = Some s1" and it: "deref s1 a = Some it"
    and s': "s' = s1\<lparr>heap := take (Len s - 1) (heap s1), index := (index s1)(key it := None)\<rparr>"
    by (auto simp: Pop_def Let_def bind_eq_Some_conv split: if_splits)
  note d = set_idx_SomeD[OF s1]
  from it d have itv: "it = (mem s ! a)\<lparr>idx := - 1\<rparr>"
    by (auto simp: deref_def split: if_splits)
  show "0 < Len s" by (rule n)
  show "a = last (heap s)" using a ne by (simp add: last_conv_nth Len_def)
  show "heap s' = butlast (heap s)" using s' d by (simp add: butlast_conv_take Len_def)
  show "index s' = (index s)(key (mem s ! a) := None)" using s' d itv by simp
  show "same_payload s s'" using s' d by (auto simp: same_payload_def nth_list_update)
  show "mem s' = (mem s)[a := (mem s ! a)\<lparr>idx := - 1\<rparr>]" using s' d by simp
  show "a < length (mem s)" using d by simp
qed

lemma Pop_Some:
  assumes "ptr_ok s" "0 < Len s"
  shows "\<exists>s'. Pop s = Some (last (heap s), s')"
proof -
  from assms have ne: "heap s \<noteq> []" by (auto simp: Len_def)
  then have l: "last (heap s) = heap s ! (Len s - 1)" by (simp add: last_conv_nth Len_def)
  from assms have "heap s ! (Len s - 1) < length (mem s)" by (auto simp: ptr_ok_def Len_def)
  with assms l show ?thesis
    by (auto simp: Pop_def Let_def set_idx_def deref_def)
qed

lemma Pop_ptr_ok:
  assumes p: "ptr_ok s" and pop: "Pop s = Some (a, s')"
  shows "ptr_ok s'"
proof -
  note d = Pop_SomeD[OF pop]
  from d(1) have ne: "heap s \<noteq> []" by (auto simp: Len_def)
  from p have dist: "distinct (heap s)" by (simp add: ptr_ok_def)
  have "heap s' ! k < length (mem s') \<and> idx (mem s' ! (heap s' ! k)) = int k"
    if k: "k < length (heap s')" for k
  proof -
    from k d(3) have k': "k < length (heap s) - 1" by simp
    then have kk: "k < length (heap s)" by simp
    have hk: "heap s' ! k = heap s ! k" using d(3) k' by (simp add: nth_butlast)
    have "heap s ! k \<noteq> heap s ! (length (heap s) - 1)"
      using dist kk k' by (simp add: nth_eq_iff_index_eq)
    then have "heap s ! k \<noteq> a" using d(2) ne by (simp add: last_conv_nth)
    with p kk show ?thesis by (auto simp: hk d(6) ptr_ok_def)
  qed
  moreover have "distinct (heap s')" using dist d(3) by (simp add: distinct_butlast)
  ultimately show ?thesis by (simp add: ptr_ok_def)
qed

lemma Push_SomeD:
  assumes "Push s x = Some s'"
  shows "x < length (mem s)" "heap s' = heap s @ [x]"
    "index s' = (index s)(key (mem s ! x) \<mapsto> x)" "same_payload s s'"
    "mem s' = (mem s)[x := (mem s ! x)\<lparr>idx := int (Len s)\<rparr>]"
proof -
  from assms obtain s1 it where s1: "set_idx s x (int (Len s)) = Some s1"
    and it: "deref s1 x = Some it"
    and s': "s' = s1\<lparr>heap := heap s1 @ [x], index := (index s1)(key it \<mapsto> x)\<rparr>"
    by (auto simp: Push_def Let_def bind_eq_Some_conv)
  note d = set_idx_SomeD[OF s1]
  from it d have itv: "it = (mem s ! x)\<lparr>idx := int (Len s)\<rparr>"
    by (auto simp: deref_def split: if_splits)
  show "x < length (mem s)" using d by simp
  show "heap s' = heap s @ [x]" using s' d by simp
  show "index s' = (index s)(key (mem s ! x) \<mapsto> x)" using s' d itv by simp
  show "same_payload s s'" using s' d by (auto simp: same_payload_def nth_list_update)
  show "mem s' = (mem s)[x := (mem s ! x)\<lparr>idx := int (Len s)\<rparr>]" using s' d by simp
qed

lemma Push_Some: "x < length (mem s) \<Longrightarrow> \<exists>s'. Push s x = Some s'"
  by (simp add: Push_def Let_def set_idx_def deref_def)

lemma Push_ptr_ok:
  assumes p: "ptr_ok s" and x: "x \<notin> set (heap s)" and push: "Push s x = Some s'"
  shows "ptr_ok s'"
proof -
  note d = Push_SomeD[OF push]
  have "heap s' ! k < length (mem s') \<and> idx (mem s' ! (heap s' ! k)) = int k"
    if k: "k < length (heap s')" for k
  proof (cases "k < length (heap s)")
    case True
    then have "heap s ! k \<noteq> x" using x by (auto simp: in_set_conv_nth)
    with p True show ?thesis by (auto simp: d(2,5) nth_append ptr_ok_def)
  next
    case False
    with k d(2) have "k = length (heap s)" by simp
    with d(1) show ?thesis by (simp add: d(2,5) Len_def)
  qed
  moreover have "distinct (heap s')" using p x d(2) by (simp add: ptr_ok_def)
  ultimately show ?thesis by (simp add: ptr_ok_def)
qed

lemma same_payload_exp_at:
  "same_payload s s' \<Longrightarrow> c < length (heap s') \<Longrightarrow> heap s' ! c = heap s ! c \<Longrightarrow> exp_at s' c = exp_at s c"
  by (simp add: same_payload_def exp_at_def)

lemma idx_okI:
  assumes "idx_ok s" "same_payload s s'" "set (heap s') = set (heap s)" "index s' = index s"
  shows "idx_ok s'"
  using assms by (auto simp: idx_ok_def same_payload_def)

lemma heap_Push_ok:
  assumes w: "store_inv s" and x: "x < length (mem s)" and nx: "x \<notin> set (heap s)"
  shows "\<exists>s'. heap_Push s x = Some s' \<and> store_inv s' \<and> set (heap s') = insert x (set (heap s)) \<and>
           index s' = (index s)(key (mem s ! x) \<mapsto> x) \<and> same_payload s s' \<and>
           Len s' = Suc (Len s)"
proof -
  from w have p: "ptr_ok s" and io: "idx_ok s" and h: "hp (exp_at s) (Len s)"
    by (auto simp: store_inv_def)
  from Push_Some[OF x] obtain s1 where push: "Push s x = Some s1" by blast
  note d = Push_SomeD[OF push]
  have p1: "ptr_ok s1" using p nx push by (rule Push_ptr_ok)
  have l1: "Len s1 = Suc (Len s)" using d(2) by (simp add: Len_def)
  from up_Some[OF p1, of "Len s"] l1 obtain s' where u: "up s1 (Len s) = Some s'" by auto
  note f = up_frame[OF u]
  have e1: "exp_at s1 c = exp_at s c" if "c < Len s" for c
    using that d(2,4) by (simp add: same_payload_exp_at Len_def nth_append)
  have "hp_up (exp_at s1) (Len s) (Suc (Len s))" using h e1 by (rule hp_push)
  with u have h': "hp (exp_at s') (Suc (Len s))" by (rule up_hp) simp
  have hp': "heap_Push s x = Some s'" using push u l1 by (simp add: heap_Push_def)
  have sp: "same_payload s s'"
    using d(4) f by (auto dest: same_items_payload intro: same_payload_trans)
  have ix: "index s' = (index s)(key (mem s ! x) \<mapsto> x)"
    using d(3) f by (auto dest: same_items_payload)
  have st: "set (heap s') = insert x (set (heap s))" using f d(2) by simp
  have "idx_ok s'"
    using io sp unfolding idx_ok_def ix st by (auto simp: same_payload_def)
  with f p1 h' l1 have "store_inv s'" by (simp add: store_inv_def)
  with hp' st ix sp f l1 show ?thesis by simp
qed

lemma down_SomeD:
  "down s i n = Some (s', moved) \<Longrightarrow> \<exists>i'. down_loop s i n = Some (s', i') \<and> moved = (i < i')"
  by (auto simp: down_def bind_eq_Some_conv)

lemma heap_Remove_nat:
  "k < Len s \<Longrightarrow> heap_Remove s (int k) =
     (if k \<noteq> Len s - 1 then
        do { s1 \<leftarrow> Swap s k (Len s - 1);
             (s2, moved) \<leftarrow> down s1 k (Len s - 1);
             s3 \<leftarrow> (if \<not> moved then up s2 k else Some s2);
             Pop s3 }
      else Pop s)"
  by (auto simp: heap_Remove_def Let_def nat_diff_distrib cong: if_cong)

lemma heap_Remove_Len:
  assumes "heap_Remove s i = Some (a, s')"
  shows "Suc (Len s') = Len s"
proof -
  have pl: "Suc (Len t') = Len t" if "Pop t = Some (a, t')" for t t'
    using Pop_SomeD(1,3)[OF that] by (simp add: Len_def)
  show ?thesis
  proof (cases "int (Len s) - 1 = i")
    case True
    with assms have "Pop s = Some (a, s')" by (simp add: heap_Remove_def)
    then show ?thesis by (rule pl)
  next
    case False
    with assms obtain s1 s2 moved s3 where
      sw: "Swap s (nat i) (nat (int (Len s) - 1)) = Some s1"
      and dn: "down s1 (nat i) (nat (int (Len s) - 1)) = Some (s2, moved)"
      and u: "(if \<not> moved then up s2 (nat i) else Some s2) = Some s3"
      and pop: "Pop s3 = Some (a, s')"
      by (auto simp: heap_Remove_def Let_def bind_eq_Some_conv split: if_splits)
    from down_SomeD[OF dn] obtain i' where "down_loop s1 (nat i) (nat (int (Len s) - 1)) = Some (s2, i')"
      by blast
    from down_loop_frame[OF this] have "Len s2 = Len s1" by simp
    moreover have "Len s3 = Len s2" using u up_frame[of s2 "nat i" s3] by (auto split: if_splits)
    moreover note Swap_Len[OF sw] pl[OF pop]
    ultimately show ?thesis by simp
  qed
qed

lemma Pop_inv:
  assumes p: "ptr_ok t" and io: "idx_ok t" and n: "0 < Len t" and h: "hp (exp_at t) (Len t - 1)"
  shows "\<exists>t'. Pop t = Some (last (heap t), t') \<and> store_inv t' \<and>
           set (heap t') = set (heap t) - {last (heap t)} \<and>
           index t' = (index t)(key (mem t ! last (heap t)) := None) \<and>
           same_payload t t' \<and> Suc (Len t') = Len t"
proof -
  from Pop_Some[OF p n] obtain t' where pop: "Pop t = Some (last (heap t), t')" by blast
  note d = Pop_SomeD[OF pop]
  from n have ne: "heap t \<noteq> []" by (auto simp: Len_def)
  from p have dist: "distinct (heap t)" by (simp add: ptr_ok_def)
  have p': "ptr_ok t'" using p pop by (rule Pop_ptr_ok)
  have l': "Suc (Len t') = Len t" using d(3) n by (simp add: Len_def)
  have st: "set (heap t') = set (heap t) - {last (heap t)}"
  proof -
    have "heap t = butlast (heap t) @ [last (heap t)]" using ne by simp
    then have "distinct (butlast (heap t) @ [last (heap t)])"
      and "set (heap t) = set (butlast (heap t) @ [last (heap t)])" using dist by simp_all
    then show ?thesis unfolding d(3) by auto
  qed
  have e: "exp_at t' c = exp_at t c" if "c < Len t - 1" for c
    using that d(3,5) by (simp add: same_payload_exp_at Len_def nth_butlast)
  from l' have "Len t - 1 = Len t'" by linarith
  with hp_cong[OF h e] have h': "hp (exp_at t') (Len t')" by simp
  have "idx_ok t'"
    unfolding idx_ok_def
  proof (intro allI impI)
    fix k a
    assume "index t' k = Some a"
    then have k: "k \<noteq> key (mem t ! last (heap t))" and a: "index t k = Some a"
      unfolding d(4) by (auto split: if_splits)
    from io a have m: "a \<in> set (heap t)" and ka: "key (mem t ! a) = k" by (auto simp: idx_ok_def)
    from ka k have "a \<noteq> last (heap t)" by auto
    with m st have "a \<in> set (heap t')" by simp
    moreover from d(5) ka have "key (mem t' ! a) = k" by (simp add: same_payload_def)
    ultimately show "a \<in> set (heap t') \<and> key (mem t' ! a) = k" by simp
  qed
  with p' h' have "store_inv t'" by (simp add: store_inv_def)
  with pop st d(4,5) l' show ?thesis by simp
qed

lemma heap_Remove_ok:
  assumes w: "store_inv s" and k: "k < Len s"
  shows "\<exists>s'. heap_Remove s (int k) = Some (heap s ! k, s') \<and> store_inv s' \<and>
           set (heap s') = set (heap s) - {heap s ! k} \<and>
           index s' = (index s)(key (mem s ! (heap s ! k)) := None) \<and>
           same_payload s s' \<and> Suc (Len s') = Len s"
proof -
  from w have p: "ptr_ok s" and io: "idx_ok s" and h: "hp (exp_at s) (Len s)"
    by (auto simp: store_inv_def)
  let ?n = "Len s - 1"
  from k have ne: "heap s \<noteq> []" by (auto simp: Len_def)
  show ?thesis
  proof (cases "k = ?n")
    case True
    then have l: "last (heap s) = heap s ! k" using ne by (simp add: last_conv_nth Len_def)
    from h have "hp (exp_at s) (Len s - 1)" by (rule hp_mono) simp
    then have pm: "hp (exp_at s) (Len s - 1)" .
    have r: "heap_Remove s (int k) = Pop s"
      by (subst heap_Remove_nat[OF k]) (use True in simp)
    from k have "0 < Len s" by simp
    from Pop_inv[OF p io this pm] show ?thesis
      unfolding l r .
  next
    case False
    with k have kn: "k < ?n" and n: "?n < Len s" and sn: "Suc ?n = Len s" by simp_all
    from Swap_Some[OF p k n] obtain s1 where sw: "Swap s k ?n = Some s1" by blast
    have p1: "ptr_ok s1" using p sw by (rule Swap_ptr_ok)
    have l1: "Len s1 = Len s" using sw by (rule Swap_Len)
    have hn1: "heap s1 ! ?n = heap s ! k"
      using Swap_heap[OF sw] by (simp add: Len_def)
    have "hp (exp_at s) (Suc ?n)" using h sn by simp
    then have b: "hp_both (exp_at s1) k ?n"
      unfolding Swap_exp_at[OF sw] using kn by (rule hp_swap_last)
    from down_loop_Some[OF p1, of ?n k] l1 obtain s2 i' where
      dl: "down_loop s1 k ?n = Some (s2, i')" by auto
    note f2 = down_loop_frame[OF dl]
    note o2 = down_loop_both[OF dl b]
    have dn: "down s1 k ?n = Some (s2, k < i')" using dl by (simp add: down_def)
    have "\<exists>s3. (if \<not> k < i' then up s2 k else Some s2) = Some s3 \<and> ptr_ok s3 \<and>
            same_items s1 s3 \<and> set (heap s3) = set (heap s1) \<and> Len s3 = Len s1 \<and>
            heap s3 ! ?n = heap s1 ! ?n \<and> hp (exp_at s3) ?n"
    proof (cases "k < i'")
      case True
      with f2 o2 p1 show ?thesis by simp
    next
      case False
      with o2 have s21: "s2 = s1" and hu: "hp_up (exp_at s1) k ?n" by simp_all
      from up_Some[OF p1, of k] k l1 obtain s3 where u: "up s1 k = Some s3" by auto
      note f3 = up_frame[OF u]
      from up_hp[OF u hu kn] f3 p1 kn False s21 u show ?thesis by simp
    qed
    then obtain s3 where u3: "(if \<not> k < i' then up s2 k else Some s2) = Some s3"
      and p3: "ptr_ok s3" and si3: "same_items s1 s3" and st3: "set (heap s3) = set (heap s1)"
      and l3: "Len s3 = Len s1" and hn3: "heap s3 ! ?n = heap s1 ! ?n" and h3: "hp (exp_at s3) ?n"
      by blast
    have si: "same_items s s3" using Swap_same_items[OF sw] si3 by (rule same_items_trans)
    then have sp: "same_payload s s3" and ix: "index s3 = index s"
      by (auto dest: same_items_payload)
    have st: "set (heap s3) = set (heap s)" using st3 Swap_set[OF sw] by simp
    have io3: "idx_ok s3" using io sp st ix by (rule idx_okI)
    have "heap s3 \<noteq> []" using l3 l1 k by (auto simp: Len_def)
    then have la: "last (heap s3) = heap s ! k"
      using hn3 hn1 l3 l1 by (simp add: last_conv_nth Len_def)
    from h3 l3 l1 have h3': "hp (exp_at s3) (Len s3 - 1)" by simp
    from k l3 l1 have n3: "0 < Len s3" by simp
    from Pop_inv[OF p3 io3 n3 h3'] obtain s' where pop: "Pop s3 = Some (heap s ! k, s')"
      and w': "store_inv s'" and st': "set (heap s') = set (heap s) - {heap s ! k}"
      and ix': "index s' = (index s3)(key (mem s3 ! (heap s ! k)) := None)"
      and sp': "same_payload s3 s'" and l': "Suc (Len s') = Len s3"
      unfolding la st by blast
    have "heap_Remove s (int k) = Some (heap s ! k, s')"
      using k False sw dn u3 pop by (simp add: heap_Remove_nat)
    moreover have "index s' = (index s)(key (mem s ! (heap s ! k)) := None)"
      using ix' ix sp by (simp add: same_payload_def)
    moreover have "same_payload s s'" using sp sp' by (rule same_payload_trans)
    ultimately show ?thesis using w' st' l' l3 l1 by simp
  qed
qed

section \<open>The public methods keep the invariants\<close>

lemma GC_done_Len: "GC_done s = Some (False, s') \<Longrightarrow> Len s' < Len s"
  by (auto simp: GC_done_def Let_def bind_eq_Some_conv dest!: heap_Remove_Len split: if_splits)

termination GC
  by (relation "measure (\<lambda>(ctx, t, s). Len s)") (auto dest: GC_done_Len)

termination GC_visit
  by (relation "measure (\<lambda>(ctx, t, s). Len s)") (auto dest: GC_done_Len)

declare GC.simps [simp del] GC_visit.simps [simp del]

lemma store_inv_new: "store_inv (newMemoryStore now)"
  by (simp add: store_inv_def ptr_ok_def idx_ok_def hp_def newMemoryStore_def Len_def)

lemma exp_at_clock: "exp_at (s\<lparr>nowFunc := now\<rparr>) = exp_at s"
  by (rule ext) (simp add: exp_at_def)

lemma store_inv_clock: "store_inv s \<Longrightarrow> store_inv (s\<lparr>nowFunc := now\<rparr>)"
  by (simp add: store_inv_def ptr_ok_def idx_ok_def exp_at_clock Len_def)

lemma store_inv_Flush: "store_inv (snd (Flush s))"
  by (simp add: Flush_def store_inv_def ptr_ok_def idx_ok_def hp_def Len_def)

lemma Set_ok:
  assumes w: "store_inv s"
  shows "\<exists>s'. Set s k v lifetime = Some (None, s') \<and> store_inv s' \<and>
           nowFunc s' = nowFunc s \<and>
           length (mem s') = Suc (length (mem s)) \<and>
           set (heap s') = insert (length (mem s)) (set (heap s)) \<and>
           index s' = (index s)(k \<mapsto> length (mem s)) \<and>
           key (mem s' ! length (mem s)) = k \<and> val (mem s' ! length (mem s)) = v \<and>
           expiredAt (mem s' ! length (mem s)) = nowFunc s + lifetime \<and>
           (\<forall>a < length (mem s). key (mem s' ! a) = key (mem s ! a) \<and>
               val (mem s' ! a) = val (mem s ! a) \<and> expiredAt (mem s' ! a) = expiredAt (mem s ! a)) \<and>
           Len s' = Suc (Len s)"
proof -
  let ?x = "length (mem s)"
  let ?s1 = "s\<lparr>mem := mem s @ [newMemoryItem k v (nowFunc s + lifetime)]\<rparr>"
  from w have p: "ptr_ok s" and io: "idx_ok s" and h: "hp (exp_at s) (Len s)"
    by (auto simp: store_inv_def)
  have lt: "\<And>a. a \<in> set (heap s) \<Longrightarrow> a < ?x"
    using p by (auto simp: ptr_ok_def in_set_conv_nth)
  have p1: "ptr_ok ?s1" using p by (auto simp: ptr_ok_def nth_append)
  have io1: "idx_ok ?s1" using io lt by (auto simp: idx_ok_def nth_append)
  have e1: "exp_at ?s1 c = exp_at s c" if "c < Len s" for c
    using that p by (auto simp: exp_at_def ptr_ok_def Len_def nth_append)
  have "hp (exp_at ?s1) (Len s)" using h e1 by (rule hp_cong)
  then have w1: "store_inv ?s1" using p1 io1 by (simp add: store_inv_def Len_def)
  have nx: "?x \<notin> set (heap ?s1)" using lt by auto
  have x1: "?x < length (mem ?s1)" by simp
  from heap_Push_ok[OF w1 x1 nx] obtain s' where
    hp: "heap_Push ?s1 ?x = Some s'" and w': "store_inv s'"
    and st: "set (heap s') = insert ?x (set (heap ?s1))"
    and ix: "index s' = (index ?s1)(key (mem ?s1 ! ?x) \<mapsto> ?x)"
    and sp: "same_payload ?s1 s'" and l: "Len s' = Suc (Len ?s1)"
    by blast
  have "Set s k v lifetime = Some (None, s')"
    using hp by (simp add: Set_def Let_def)
  moreover have "key (mem ?s1 ! ?x) = k" "val (mem ?s1 ! ?x) = v"
    "expiredAt (mem ?s1 ! ?x) = nowFunc s + lifetime"
    by (simp_all add: newMemoryItem_def)
  ultimately show ?thesis
    using w' st ix sp l by (auto simp: same_payload_def Len_def nth_append)
qed

lemma Delete_absent: "index s k = None \<Longrightarrow> Delete s k = Some (None, s)"
  by (simp add: Delete_def)

lemma Delete_ok:
  assumes w: "store_inv s" and a: "index s k = Some a"
  shows "\<exists>s'. Delete s k = Some (None, s') \<and> store_inv s' \<and>
           set (heap s') = set (heap s) - {a} \<and> index s' = (index s)(k := None) \<and>
           same_payload s s' \<and> Suc (Len s') = Len s"
proof -
  from w have p: "ptr_ok s" and io: "idx_ok s" by (auto simp: store_inv_def)
  from io a have m: "a \<in> set (heap s)" and ka: "key (mem s ! a) = k" by (auto simp: idx_ok_def)
  from m obtain i where i: "i < length (heap s)" and hi: "heap s ! i = a"
    by (auto simp: in_set_conv_nth)
  from p i hi have al: "a < length (mem s)" and ii: "idx (mem s ! a) = int i"
    by (auto simp: ptr_ok_def)
  from heap_Remove_ok[OF w, of i] i hi ka obtain s' where
    "heap_Remove s (int i) = Some (a, s')" "store_inv s'" "set (heap s') = set (heap s) - {a}"
    "index s' = (index s)(k := None)" "same_payload s s'" "Suc (Len s') = Len s"
    by (auto simp: Len_def)
  then show ?thesis using a al ii by (simp add: Delete_def deref_def)
qed

lemma GC_done_cases:
  assumes w: "store_inv s"
  obtains (empty) "Len s = 0" "GC_done s = Some (True, s)"
  | (live) "0 < Len s" "nowFunc s < exp_at s 0" "GC_done s = Some (True, s)"
  | (expired) s' where "0 < Len s" "\<not> nowFunc s < exp_at s 0" "GC_done s = Some (False, s')"
      "store_inv s'" "set (heap s') = set (heap s) - {heap s ! 0}"
      "index s' = (index s)(key (mem s ! (heap s ! 0)) := None)"
      "same_payload s s'" "Suc (Len s') = Len s"
proof (cases "Len s = 0")
  case True
  then have "GC_done s = Some (True, s)" by (simp add: GC_done_def)
  with True show ?thesis by (rule empty)
next
  case False
  then have n: "0 < Len s" by simp
  from w have p: "ptr_ok s" by (simp add: store_inv_def)
  from p n have al: "heap s ! 0 < length (mem s)" and i0: "idx (mem s ! (heap s ! 0)) = 0"
    by (auto simp: ptr_ok_def Len_def)
  show ?thesis
  proof (cases "nowFunc s < exp_at s 0")
    case True
    then have "GC_done s = Some (True, s)"
      using n al by (simp add: GC_done_def deref_def exp_at_def)
    with n True show ?thesis by (rule live)
  next
    case ex: False
    from heap_Remove_ok[OF w n] obtain s' where
      r: "heap_Remove s (int 0) = Some (heap s ! 0, s')" and r': "store_inv s'"
      "set (heap s') = set (heap s) - {heap s ! 0}"
      "index s' = (index s)(key (mem s ! (heap s ! 0)) := None)"
      "same_payload s s'" "Suc (Len s') = Len s"
      by blast
    have "GC_done s = Some (False, s')"
      using n al i0 ex r by (simp add: GC_done_def deref_def exp_at_def)
    with n ex r' show ?thesis by (auto intro: expired)
  qed
qed

lemma reachable_inv: "reachable s \<Longrightarrow> store_inv s"
proof (induction rule: reachable.induct)
  case (r_new now)
  show ?case by (rule store_inv_new)
next
  case (r_clock s now)
  then show ?case by (simp add: store_inv_clock)
next
  case (r_Set s k v lifetime e s')
  with Set_ok[of s k v lifetime] show ?case by auto
next
  case (r_Delete s k e s')
  show ?case
  proof (cases "index s k")
    case None
    with r_Delete show ?thesis by (simp add: Delete_absent)
  next
    case (Some a)
    with Delete_ok[of s k a] r_Delete show ?thesis by auto
  qed
next
  case (r_Flush s e s')
  with store_inv_Flush[of s] show ?case by simp
next
  case (r_GC s d s')
  from r_GC.IH show ?case
    by (cases rule: GC_done_cases) (use r_GC.IH r_GC.hyps in auto)
qed

section \<open>The stores of the tests are reachable\<close>

lemmas eval_defs = Set_def heap_Push_def Push_def set_idx_def deref_def Len_def Less_def Swap_def
  newMemoryItem_def newMemoryStore_def Let_def up.simps

lemma Set_store1: "Set (newMemoryStore 0) ''1'' (GoVal ''1'') second = Some (None, store1)"
  by (simp add: eval_defs store1_def second_def)

lemma Set_store12: "Set store1 ''2'' (GoVal ''2'') (2 * second) = Some (None, store12)"
  by (simp add: eval_defs store1_def store12_def second_def)

lemma Set_store123: "Set store12 ''3'' (GoVal ''3'') (3 * second) = Some (None, store123)"
  by (simp add: eval_defs store12_def store123_def second_def numeral_2_eq_2)

lemma reachable_store123: "reachable store123"
  by (rule r_Set[OF r_Set[OF r_Set[OF r_new Set_store1] Set_store12] Set_store123])

lemma Set_store_k: "Set (newMemoryStore 0) ''k'' (GoVal ''a'') second = Some (None, store_k)"
  by (simp add: eval_defs store_k_def second_def)

lemma Set_store_kk: "Set store_k ''k'' (GoVal ''b'') (2 * second) = Some (None, store_kk)"
  by (simp add: eval_defs store_k_def store_kk_def second_def)

lemma Set_store_nil: "Set (newMemoryStore 0) ''k'' GoNil second = Some (None, store_nil)"
  by (simp add: eval_defs store_nil_def second_def)

section \<open>The sweep removes the expired items\<close>


lemma GC_stop:
  "\<not> ctx t \<Longrightarrow> GC_done s = Some (True, s') \<Longrightarrow>
     GC ctx t s = Some (None, s') \<and> GC_visit ctx t s = Some []"
  by (simp add: GC.simps[of ctx t s] GC_visit.simps[of ctx t s])

lemma GC_step:
  "\<not> ctx t \<Longrightarrow> GC_done s = Some (False, s') \<Longrightarrow>
     GC ctx t s = GC ctx (Suc t) s' \<and>
     GC_visit ctx t s = map_option ((#) (heap s ! 0)) (GC_visit ctx (Suc t) s')"
  by (simp add: GC.simps[of ctx t s] GC_visit.simps[of ctx t s])

lemma sweep_induct [consumes 1, case_names cancelled stop step]:
  assumes w: "store_inv s"
    and c: "\<And>t s. store_inv s \<Longrightarrow> ctx t \<Longrightarrow> P t s"
    and d: "\<And>t s. store_inv s \<Longrightarrow> \<not> ctx t \<Longrightarrow> GC_done s = Some (True, s) \<Longrightarrow>
              Len s = 0 \<or> nowFunc s < exp_at s 0 \<Longrightarrow> P t s"
    and st: "\<And>t s s'. store_inv s \<Longrightarrow> \<not> ctx t \<Longrightarrow> 0 < Len s \<Longrightarrow> exp_at s 0 \<le> nowFunc s \<Longrightarrow>
              GC_done s = Some (False, s') \<Longrightarrow> store_inv s' \<Longrightarrow>
              set (heap s') = set (heap s) - {heap s ! 0} \<Longrightarrow>
              index s' = (index s)(key (mem s ! (heap s ! 0)) := None) \<Longrightarrow>
              same_payload s s' \<Longrightarrow> Suc (Len s') = Len s \<Longrightarrow> P (Suc t) s' \<Longrightarrow> P t s"
  shows "P t s"
  using w
proof (induction "Len s" arbitrary: t s rule: less_induct)
  case less
  show ?case
  proof (cases "ctx t")
    case True
    with less.prems show ?thesis by (rule c)
  next
    case nc: False
    from less.prems show ?thesis
    proof (cases rule: GC_done_cases)
      case empty
      with less.prems nc show ?thesis by (auto intro: d)
    next
      case live
      with less.prems nc show ?thesis by (auto intro: d)
    next
      case (expired s')
      from expired(8) have "Len s' < Len s" by simp
      then have "P (Suc t) s'" using expired(4) by (rule less.hyps)
      with less.prems nc expired show ?thesis by (intro st[of s t s']) auto
    qed
  qed
qed


lemma root_min:
  assumes "store_inv s" "a \<in> set (heap s)"
  shows "exp_at s 0 \<le> exp_of s a"
proof -
  from assms(2) obtain c where c: "c < Len s" and a: "heap s ! c = a"
    by (auto simp: in_set_conv_nth Len_def)
  from assms(1) have "hp (exp_at s) (Len s)" by (simp add: store_inv_def)
  from hp_root_min[OF this c] a show ?thesis by (simp add: exp_at_def exp_of_def)
qed

lemma exp_of_payload: "same_payload s s' \<Longrightarrow> exp_of s' = exp_of s"
  by (rule ext) (simp add: exp_of_def same_payload_def)

text \<open>A sweep whose context is never done removes the expired items, least first.\<close>

lemma GC_sweep:
  assumes "store_inv s" and nc: "\<forall>t. \<not> ctx t"
  shows "\<exists>s' vs. GC ctx t s = Some (None, s') \<and> GC_visit ctx t s = Some vs \<and>
           set vs = {a \<in> set (heap s). exp_of s a \<le> nowFunc s} \<and> distinct vs \<and>
           sorted (map (exp_of s) vs) \<and> (vs = [] \<or> hd vs = heap s ! 0) \<and>
           set (heap s') = {a \<in> set (heap s). nowFunc s < exp_of s a}"
  using assms(1)
proof (induction t s rule: sweep_induct[where ctx = ctx])
  case (cancelled t s)
  with nc show ?case by simp
next
  case (stop t s)
  have "\<forall>a \<in> set (heap s). nowFunc s < exp_of s a"
  proof
    fix a assume a: "a \<in> set (heap s)"
    then have "Len s \<noteq> 0" by (auto simp: Len_def)
    with stop.hyps(4) have "nowFunc s < exp_at s 0" by simp
    with root_min[OF stop.hyps(1) a] show "nowFunc s < exp_of s a" by simp
  qed
  then have "{a \<in> set (heap s). exp_of s a \<le> nowFunc s} = {}"
    and "{a \<in> set (heap s). nowFunc s < exp_of s a} = set (heap s)" by auto
  moreover note GC_stop[of ctx t s s, OF stop.hyps(2,3)]
  ultimately show ?case by simp
next
  case (step t s s')
  let ?a = "heap s ! 0"
  have e: "exp_of s' = exp_of s" using step.hyps(9) by (rule exp_of_payload)
  have n: "nowFunc s' = nowFunc s" using step.hyps(9) by (simp add: same_payload_def)
  have am: "?a \<in> set (heap s)" using step.hyps(3) by (simp add: Len_def)
  have ae: "exp_of s ?a \<le> nowFunc s" using step.hyps(4) by (simp add: exp_at_def exp_of_def)
  from step.IH obtain s'' vs where
    g: "GC ctx (Suc t) s' = Some (None, s'')" and v: "GC_visit ctx (Suc t) s' = Some vs"
    and sv: "set vs = {a \<in> set (heap s'). exp_of s' a \<le> nowFunc s'}" and dv: "distinct vs"
    and so: "sorted (map (exp_of s') vs)"
    and sh: "set (heap s'') = {a \<in> set (heap s'). nowFunc s' < exp_of s' a}"
    by blast
  have g': "GC ctx t s = Some (None, s'')" and v': "GC_visit ctx t s = Some (?a # vs)"
    using GC_step[OF _ step.hyps(5), of ctx t] step.hyps(2) g v by simp_all
  have f1: "set (?a # vs) = {a \<in> set (heap s). exp_of s a \<le> nowFunc s}"
  proof -
    have "set vs = {a \<in> set (heap s). exp_of s a \<le> nowFunc s} - {?a}"
      unfolding sv e n step.hyps(7) by blast
    with am ae show ?thesis by auto
  qed
  have f2: "distinct (?a # vs)"
  proof -
    have "?a \<notin> set vs" unfolding sv step.hyps(7) by blast
    with dv show ?thesis by simp
  qed
  have f3: "sorted (map (exp_of s) (?a # vs))"
  proof -
    have "exp_of s ?a \<le> exp_of s b" if "b \<in> set vs" for b
    proof -
      from that have "b \<in> set (heap s)" unfolding sv step.hyps(7) by blast
      from root_min[OF step.hyps(1) this] show ?thesis by (simp add: exp_at_def exp_of_def)
    qed
    moreover from so have "sorted (map (exp_of s) vs)" unfolding e .
    ultimately show ?thesis by simp
  qed
  have f4: "set (heap s'') = {a \<in> set (heap s). nowFunc s < exp_of s a}"
  proof -
    have "set (heap s'') = {a \<in> set (heap s). nowFunc s < exp_of s a} - {?a}"
      unfolding sh e n step.hyps(7) by blast
    with ae show ?thesis by auto
  qed
  have f5: "?a # vs = [] \<or> hd (?a # vs) = heap s ! 0" by simp
  from g' v' f1 f2 f3 f5 f4 show ?case by blast
qed




lemma exp_of_clock: "exp_of (s\<lparr>nowFunc := now\<rparr>) = exp_of s"
  by (rule ext) (simp add: exp_of_def)

lemma reachable_store_kk: "reachable store_kk"
  by (rule r_Set[OF r_Set[OF r_new Set_store_k] Set_store_kk])

section \<open>The scheduler keeps its counts\<close>







section \<open>The claims\<close>

text \<open>
  C1 at the failing input. Writing the key \<^verbatim>\<open>"k"\<close> a second time leaves the first item
  in the heap, with its old value, and appends a second item with the same key: the heap
  has two slots for the key, of which the map knows the second.
\<close>

theorem Set_existing_key_duplicates:
  "Set (newMemoryStore 0) ''k'' (GoVal ''a'') second = Some (None, store_k) \<and>
   index store_k ''k'' = Some 0 \<and>
   Set store_k ''k'' (GoVal ''b'') (2 * second) = Some (None, store_kk) \<and>
   heap store_kk = [0, 1] \<and> map (\<lambda>a. key (mem store_kk ! a)) (heap store_kk) = [''k'', ''k''] \<and>
   index store_kk ''k'' = Some 1 \<and> val (mem store_kk ! 0) = GoVal ''a''"
  using Set_store_k Set_store_kk by (simp add: store_k_def store_kk_def)

text \<open>
  C2 at the failing input. After the two writes of \<^verbatim>\<open>"k"\<close> the heap has two slots and the
  map one key; slot \<open>0\<close> holds an item with key \<^verbatim>\<open>"k"\<close> that the map does not send
  \<^verbatim>\<open>"k"\<close> to.
\<close>

theorem index_heap_not_bijective:
  "reachable store_kk \<and> Len store_kk = 2 \<and> dom (index store_kk) = {''k''} \<and>
   key (mem store_kk ! (heap store_kk ! 0)) = ''k'' \<and>
   index store_kk ''k'' \<noteq> Some (heap store_kk ! 0)"
proof -
  have "reachable store_kk"
    by (rule r_Set[OF r_Set[OF r_new Set_store_k] Set_store_kk])
  then show ?thesis by (auto simp: store_kk_def Len_def split: if_splits)
qed




text \<open>
  C4, as amended. \<open>Get\<close> never changes the store. It returns \<^verbatim>\<open>nil\<close>, which is how this
  version signals that nothing was found, exactly when the key is not in the map, or its
  entry expires at or before the clock, or the stored value is itself \<^verbatim>\<open>nil\<close>. For a
  key that is present and not expired it returns the stored value. It starts a goroutine
  deleting the key exactly when the key is present and expired.
\<close>

theorem Get_NotFound_iff:
  assumes r: "reachable s"
  shows "\<exists>x sp. Get s k = Some (x, s, sp) \<and>
           (x = GoNil \<longleftrightarrow>
              index s k = None \<or>
              (\<exists>a. index s k = Some a \<and>
                   (expiredAt (mem s ! a) \<le> nowFunc s \<or> val (mem s ! a) = GoNil))) \<and>
           (\<forall>a. index s k = Some a \<and> nowFunc s < expiredAt (mem s ! a) \<longrightarrow>
                x = val (mem s ! a)) \<and>
           sp = (if \<exists>a. index s k = Some a \<and> expiredAt (mem s ! a) \<le> nowFunc s then [k] else [])"
proof (cases "index s k")
  case None
  then show ?thesis by (simp add: Get_def)
next
  case (Some a)
  from r have "store_inv s" by (rule reachable_inv)
  then have p: "ptr_ok s" and io: "idx_ok s" by (auto simp: store_inv_def)
  from io Some have "a \<in> set (heap s)" by (auto simp: idx_ok_def)
  with p have "a < length (mem s)" by (auto simp: ptr_ok_def in_set_conv_nth)
  with Some show ?thesis by (auto simp: Get_def deref_def)
qed

theorem Get_NotFound_iff_witness:
  "reachable store123 \<and> Get store123 ''2'' = Some (GoVal ''2'', store123, []) \<and>
   Get store123 ''9'' = Some (GoNil, store123, [])"
proof -
  have "index store123 ''2'' = Some 1" "nowFunc store123 < expiredAt (mem store123 ! 1)"
    "val (mem store123 ! 1) = GoVal ''2''" "index store123 ''9'' = None"
    by (simp_all add: store123_def)
  with Get_NotFound_iff[OF reachable_store123, of "''2''"]
    Get_NotFound_iff[OF reachable_store123, of "''9''"]
  show ?thesis using reachable_store123 by auto
qed

text \<open>
  C4 as stated fails: the key \<^verbatim>\<open>"k"\<close> is in the map and its entry has not expired, and
  yet \<open>Get\<close> returns \<^verbatim>\<open>nil\<close>, because \<^verbatim>\<open>nil\<close> is the value stored.
\<close>

theorem Get_nil_value_counterexample:
  "Set (newMemoryStore 0) ''k'' GoNil second = Some (None, store_nil) \<and>
   index store_nil ''k'' = Some 0 \<and> nowFunc store_nil < expiredAt (mem store_nil ! 0) \<and>
   Get store_nil ''k'' = Some (GoNil, store_nil, [])"
  using Set_store_nil by (simp add: store_nil_def Get_def deref_def)




text \<open>
  C6, as amended. Let the path of the key be a file that can be read. If the decoder
  returns an error, \<open>Get\<close> returns that error wrapped as \<^verbatim>\<open>decode\<close>, which is not
  \<^verbatim>\<open>os.ErrNotExist\<close>, and starts no deletion. If the decoder succeeds with a value that is
  not a \<^verbatim>\<open>fileItem\<close>, \<open>Get\<close> returns \<^verbatim>\<open>os.ErrNotExist\<close>, as for an absent key.
\<close>

theorem fileStore_Get_undecodable:
  assumes f: "isFile os (filename os s k)"
    and rd: "ReadFile os (filename os s k) = Inr binary"
    and dc: "decoder s binary = (v, err)"
  shows "(\<forall>e. err = Some e \<longrightarrow>
            fileStore_Get os s k = (Inl (Wrap e ''decode''), []) \<and>
            fst (fileStore_Get os s k) \<noteq> Inl ErrNotExist) \<and>
         (err = None \<and> v = NotFileItem \<longrightarrow>
            fileStore_Get os s k = (Inl ErrNotExist, []) \<and>
            fileStore_Get os s k = fileStore_Get (os\<lparr>Stat := (\<lambda>p. None)\<rparr>) s k)"
  using assms by (auto simp: fileStore_Get_def read_def Let_def isFile_def filename_def)

theorem fileStore_Get_undecodable_witness:
  "isFile os1 (filename os1 store_bad ''k'') \<and>
   ReadFile os1 (filename os1 store_bad ''k'') = Inr [7] \<and>
   decoder store_bad [7] = (NotFileItem, Some (ErrOther ''unexpected EOF'')) \<and>
   fileStore_Get os1 store_bad ''k'' = (Inl (Wrap (ErrOther ''unexpected EOF'') ''decode''), []) \<and>
   decoder store_foreign [7] = (NotFileItem, None) \<and>
   fileStore_Get os1 store_foreign ''k'' = (Inl ErrNotExist, [])"
proof -
  have a: "isFile os1 (filename os1 store_bad ''k'')" "isFile os1 (filename os1 store_foreign ''k'')"
    by (simp_all add: isFile_def os1_def)
  have b: "ReadFile os1 (filename os1 store_bad ''k'') = Inr [7]"
    "ReadFile os1 (filename os1 store_foreign ''k'') = Inr [7]"
    by (simp_all add: os1_def)
  have c: "decoder store_bad [7] = (NotFileItem, Some (ErrOther ''unexpected EOF''))"
    by (simp add: store_bad_def)
  have d: "decoder store_foreign [7] = (NotFileItem, None)"
    by (simp add: store_foreign_def)
  from fileStore_Get_undecodable[OF a(1) b(1) c] fileStore_Get_undecodable[OF a(2) b(2) d]
  show ?thesis using a b c d by simp
qed

text \<open>
  C6 as stated fails: the bytes of the file cannot be decoded, and \<open>Get\<close> returns the
  decoder's error, wrapped, where a key without a file gets \<^verbatim>\<open>os.ErrNotExist\<close>.
\<close>

theorem fileStore_Get_decode_error_counterexample:
  "isFile os1 (filename os1 store_bad ''k'') \<and>
   read os1 store_bad (filename os1 store_bad ''k'') = Inl (Wrap (ErrOther ''unexpected EOF'') ''decode'') \<and>
   fileStore_Get os1 store_bad ''k'' = (Inl (Wrap (ErrOther ''unexpected EOF'') ''decode''), []) \<and>
   fileStore_Get (os1\<lparr>Stat := (\<lambda>p. None)\<rparr>) store_bad ''k'' = (Inl ErrNotExist, [])"
  by (simp add: fileStore_Get_def read_def Let_def isFile_def os1_def store_bad_def)

text \<open>
  C7. In every reachable state, so after any sequence of \<open>Set\<close> calls, the heap is a
  min-heap by expiration: no slot expires before its parent, and the root expires no
  later than any item of the heap. Reading the root and removing it, again and again, as
  the sweep does up to any clock value, yields the items expiring up to that value, each
  once, in non-decreasing order of expiration.
\<close>

theorem heap_min_ordered:
  assumes r: "reachable s"
  shows "(\<forall>c. 0 < c \<and> c < Len s \<longrightarrow> exp_at s ((c - 1) div 2) \<le> exp_at s c) \<and>
         (\<forall>a \<in> set (heap s). exp_at s 0 \<le> exp_of s a) \<and>
         (\<forall>now. \<exists>vs. GC_visit (\<lambda>_. False) 0 (s\<lparr>nowFunc := now\<rparr>) = Some vs \<and>
                 sorted (map (exp_of s) vs) \<and> distinct vs \<and>
                 set vs = {a \<in> set (heap s). exp_of s a \<le> now})"
proof -
  from r have w: "store_inv s" by (rule reachable_inv)
  then have h: "hp (exp_at s) (Len s)" by (simp add: store_inv_def)
  have a: "exp_at s ((c - 1) div 2) \<le> exp_at s c" if "0 < c \<and> c < Len s" for c
    using h edge_parent[of c] that by (auto simp: hp_def)
  have b: "\<forall>a \<in> set (heap s). exp_at s 0 \<le> exp_of s a" using w by (auto intro: root_min)
  have c: "\<exists>vs. GC_visit (\<lambda>_. False) 0 (s\<lparr>nowFunc := now\<rparr>) = Some vs \<and>
                 sorted (map (exp_of s) vs) \<and> distinct vs \<and>
                 set vs = {a \<in> set (heap s). exp_of s a \<le> now}" for now
  proof -
    have "store_inv (s\<lparr>nowFunc := now\<rparr>)" using w by (rule store_inv_clock)
    from GC_sweep[OF this, of "\<lambda>_. False" 0] show ?thesis
      unfolding exp_of_clock by auto
  qed
  from a b c show ?thesis by blast
qed

theorem heap_min_ordered_witness:
  "reachable store123 \<and> exp_at store123 0 \<le> exp_at store123 1 \<and> exp_at store123 0 \<le> exp_at store123 2 \<and>
   (\<exists>vs. GC_visit (\<lambda>_. False) 0 (store123\<lparr>nowFunc := 3 * second\<rparr>) = Some vs \<and>
      sorted (map (exp_of store123) vs) \<and> distinct vs \<and> set vs = {0, 1, 2})"
proof -
  note t = heap_min_ordered[OF reachable_store123]
  have l: "Len store123 = 3" by (simp add: Len_def store123_def)
  have "{a \<in> set (heap store123). exp_of store123 a \<le> 3 * second} = {0, 1, 2}"
    by (auto simp: store123_def exp_of_def second_def)
  moreover from t have p: "\<And>c. 0 < c \<and> c < Len store123 \<Longrightarrow>
      exp_at store123 ((c - 1) div 2) \<le> exp_at store123 c" by blast
  have "exp_at store123 0 \<le> exp_at store123 1" using p[of 1] l by simp
  moreover have "exp_at store123 0 \<le> exp_at store123 2" using p[of 2] l by simp
  moreover from t have "\<exists>vs. GC_visit (\<lambda>_. False) 0 (store123\<lparr>nowFunc := 3 * second\<rparr>) = Some vs \<and>
      sorted (map (exp_of store123) vs) \<and> distinct vs \<and>
      set vs = {a \<in> set (heap store123). exp_of store123 a \<le> 3 * second}" by blast
  ultimately show ?thesis using reachable_store123 by simp
qed




text \<open>
  C9. In every reachable state, that is before and after every public method, a key \<open>k\<close>
  of the map is sent to an allocated item with that key whose field \<open>idx\<close> is a slot
  of the heap, and that slot holds this very item; so \<open>Delete k\<close> succeeds, removes
  exactly that item from the heap and the key from the map.
\<close>

theorem index_slot_consistent:
  assumes r: "reachable s" and a: "index s k = Some a"
  shows "a < length (mem s) \<and> key (mem s ! a) = k \<and>
         0 \<le> idx (mem s ! a) \<and> nat (idx (mem s ! a)) < Len s \<and>
         heap s ! nat (idx (mem s ! a)) = a \<and>
         (\<exists>s'. Delete s k = Some (None, s') \<and> set (heap s') = set (heap s) - {a} \<and>
               index s' k = None \<and> Suc (Len s') = Len s \<and> reachable s')"
proof -
  from r have w: "store_inv s" by (rule reachable_inv)
  then have p: "ptr_ok s" and io: "idx_ok s" by (auto simp: store_inv_def)
  from io a have m: "a \<in> set (heap s)" and ka: "key (mem s ! a) = k" by (auto simp: idx_ok_def)
  from m obtain i where i: "i < length (heap s)" and hi: "heap s ! i = a"
    by (auto simp: in_set_conv_nth)
  from p i hi have al: "a < length (mem s)" and ii: "idx (mem s ! a) = int i"
    by (auto simp: ptr_ok_def)
  from Delete_ok[OF w a] obtain s' where d: "Delete s k = Some (None, s')"
    "set (heap s') = set (heap s) - {a}" "index s' = (index s)(k := None)" "Suc (Len s') = Len s"
    by blast
  from r d(1) have "reachable s'" by (rule r_Delete)
  with d al ka ii i hi show ?thesis by (auto simp: Len_def)
qed

theorem index_slot_consistent_witness:
  "reachable store123 \<and> index store123 ''2'' = Some 1 \<and>
   idx (mem store123 ! 1) = 1 \<and> heap store123 ! 1 = 1 \<and>
   (\<exists>s'. Delete store123 ''2'' = Some (None, s') \<and> set (heap s') = {0, 2} \<and> index s' ''2'' = None)"
proof -
  have h: "index store123 ''2'' = Some 1" by (simp add: store123_def)
  from index_slot_consistent[OF reachable_store123 h]
  obtain s' where "Delete store123 ''2'' = Some (None, s')"
    "set (heap s') = set (heap store123) - {1}" "index s' ''2'' = None"
    by blast
  moreover have "set (heap store123) - {1} = {0, 2}" by (auto simp: store123_def)
  moreover have "idx (mem store123 ! 1) = 1" "heap store123 ! 1 = 1" by (simp_all add: store123_def)
  ultimately show ?thesis using reachable_store123 h by auto
qed



section \<open>Further properties\<close>

lemma slots_indexed_remove:
  assumes si: "slots_indexed s" and a: "a \<in> set (heap s)"
    and h: "set (heap s') = set (heap s) - {a}"
    and ix: "index s' = (index s)(key (mem s ! a) := None)"
    and sp: "same_payload s s'"
  shows "slots_indexed s'"
  unfolding slots_indexed_def
proof
  fix b assume "b \<in> set (heap s')"
  with h have b: "b \<in> set (heap s)" and ba: "b \<noteq> a" by auto
  from si b have ib: "index s (key (mem s ! b)) = Some b" by (simp add: slots_indexed_def)
  from si a have ia: "index s (key (mem s ! a)) = Some a" by (simp add: slots_indexed_def)
  from ib ia ba have "key (mem s ! b) \<noteq> key (mem s ! a)" by auto
  moreover from sp have "key (mem s' ! b) = key (mem s ! b)" by (simp add: same_payload_def)
  ultimately show "index s' (key (mem s' ! b)) = Some b" using ib ix by simp
qed

text \<open>
  X1. \<open>Set\<close> succeeds in every reachable state. Afterwards the key is sent to a newly
  allocated item that has the given value and expires at the clock plus the lifetime;
  the heap has that item as one more slot, whether or not the key had an entry, and the
  other keys of the map are untouched.
\<close>

theorem Set_creates_entry:
  assumes r: "reachable s"
  shows "\<exists>s' a. Set s k v lifetime = Some (None, s') \<and> reachable s' \<and>
           index s' k = Some a \<and> key (mem s' ! a) = k \<and> val (mem s' ! a) = v \<and>
           expiredAt (mem s' ! a) = nowFunc s + lifetime \<and>
           a \<notin> set (heap s) \<and> set (heap s') = insert a (set (heap s)) \<and>
           Len s' = Suc (Len s) \<and> index s' = (index s)(k \<mapsto> a)"
proof -
  from r have w: "store_inv s" by (rule reachable_inv)
  from Set_ok[OF w, of k v lifetime] obtain s' where
    s: "Set s k v lifetime = Some (None, s')"
    and rest: "set (heap s') = insert (length (mem s)) (set (heap s))"
      "index s' = (index s)(k \<mapsto> length (mem s))"
      "key (mem s' ! length (mem s)) = k" "val (mem s' ! length (mem s)) = v"
      "expiredAt (mem s' ! length (mem s)) = nowFunc s + lifetime" "Len s' = Suc (Len s)"
    by blast
  from r s have "reachable s'" by (rule r_Set)
  moreover from w have "length (mem s) \<notin> set (heap s)"
    by (auto simp: store_inv_def ptr_ok_def in_set_conv_nth)
  ultimately show ?thesis using s rest by auto
qed

theorem Set_creates_entry_witness:
  "reachable store_k \<and>
   (\<exists>s' a. Set store_k ''k'' (GoVal ''b'') (2 * second) = Some (None, s') \<and>
      index s' ''k'' = Some a \<and> val (mem s' ! a) = GoVal ''b'' \<and> Len s' = Suc (Len store_k))"
proof -
  have r: "reachable store_k" by (rule r_Set[OF r_new Set_store_k])
  from Set_creates_entry[OF r, of "''k''" "GoVal ''b''" "2 * second"] r show ?thesis by blast
qed

text \<open>
  X2. In a reachable state where every slot of the heap is the one the map knows for its
  key, taking the key of an item is a bijection from the items of the heap to the keys of
  the map, and the map has as many keys as the heap has slots.
\<close>

theorem index_heap_bijection:
  assumes r: "reachable s" and si: "slots_indexed s"
  shows "bij_betw (\<lambda>a. key (mem s ! a)) (set (heap s)) (dom (index s)) \<and>
         card (dom (index s)) = Len s"
proof -
  from r have w: "store_inv s" by (rule reachable_inv)
  then have d: "distinct (heap s)" and io: "idx_ok s" by (auto simp: store_inv_def ptr_ok_def)
  have inj: "inj_on (\<lambda>a. key (mem s ! a)) (set (heap s))"
  proof (rule inj_onI)
    fix a b assume "a \<in> set (heap s)" "b \<in> set (heap s)" "key (mem s ! a) = key (mem s ! b)"
    with si have "Some a = Some b" by (metis slots_indexed_def)
    then show "a = b" by simp
  qed
  have img: "(\<lambda>a. key (mem s ! a)) ` set (heap s) = dom (index s)"
  proof
    show "(\<lambda>a. key (mem s ! a)) ` set (heap s) \<subseteq> dom (index s)"
      using si by (auto simp: slots_indexed_def)
    show "dom (index s) \<subseteq> (\<lambda>a. key (mem s ! a)) ` set (heap s)"
    proof
      fix k assume "k \<in> dom (index s)"
      then obtain a where "index s k = Some a" by auto
      with io have "a \<in> set (heap s)" "key (mem s ! a) = k" by (auto simp: idx_ok_def)
      then show "k \<in> (\<lambda>a. key (mem s ! a)) ` set (heap s)" by auto
    qed
  qed
  from inj img have b: "bij_betw (\<lambda>a. key (mem s ! a)) (set (heap s)) (dom (index s))"
    by (simp add: bij_betw_def)
  from bij_betw_same_card[OF b] d have "card (dom (index s)) = Len s"
    by (simp add: distinct_card Len_def)
  with b show ?thesis by simp
qed

theorem index_heap_bijection_witness:
  "reachable store123 \<and> slots_indexed store123 \<and> card (dom (index store123)) = 3"
proof -
  have si: "slots_indexed store123" by (simp add: slots_indexed_def store123_def)
  have "Len store123 = 3" by (simp add: Len_def store123_def)
  with index_heap_bijection[OF reachable_store123 si] reachable_store123 si show ?thesis by simp
qed

text \<open>
  X3. That every slot is the one the map knows for its key holds in a new store and is
  kept by the clock, by \<open>Delete\<close>, by \<open>Flush\<close>, by each round of the sweep, and by
  \<open>Set\<close> of a key that is not in the map.
\<close>

theorem slots_indexed_kept:
  assumes r: "reachable s" and si: "slots_indexed s"
  shows "slots_indexed (newMemoryStore now :: 'a memoryStore) \<and>
         slots_indexed (s\<lparr>nowFunc := now\<rparr>) \<and>
         (\<forall>e s'. Delete s k = Some (e, s') \<longrightarrow> slots_indexed s') \<and>
         slots_indexed (snd (Flush s)) \<and>
         (\<forall>d s'. GC_done s = Some (d, s') \<longrightarrow> slots_indexed s') \<and>
         (\<forall>v lifetime e s'. index s k = None \<and> Set s k v lifetime = Some (e, s') \<longrightarrow>
              slots_indexed s')"
proof -
  from r have w: "store_inv s" by (rule reachable_inv)
  have a: "slots_indexed (newMemoryStore now :: 'a memoryStore)"
    by (simp add: slots_indexed_def newMemoryStore_def)
  have b: "slots_indexed (s\<lparr>nowFunc := now\<rparr>)" using si by (simp add: slots_indexed_def)
  have c: "slots_indexed s'" if "Delete s k = Some (e, s')" for e s'
  proof (cases "index s k")
    case None
    with that si show ?thesis by (simp add: Delete_absent)
  next
    case (Some x)
    from w Some have x: "x \<in> set (heap s)" "key (mem s ! x) = k"
      by (auto simp: store_inv_def idx_ok_def)
    from Delete_ok[OF w Some] that obtain
      "set (heap s') = set (heap s) - {x}" "index s' = (index s)(k := None)" "same_payload s s'"
      by auto
    with si x show ?thesis by (auto intro: slots_indexed_remove)
  qed
  have d: "slots_indexed (snd (Flush s))" by (simp add: slots_indexed_def Flush_def)
  have e: "slots_indexed s'" if g: "GC_done s = Some (d, s')" for d s'
    using w
  proof (cases rule: GC_done_cases)
    case empty
    with g si show ?thesis by simp
  next
    case live
    with g si show ?thesis by simp
  next
    case (expired s1)
    from expired(1) have "heap s ! 0 \<in> set (heap s)" by (simp add: Len_def)
    from slots_indexed_remove[OF si this expired(5,6,7)] expired(3) g show ?thesis by simp
  qed
  have f: "slots_indexed s'" if n: "index s k = None" and st: "Set s k v lifetime = Some (e, s')"
    for v lifetime e s'
  proof -
    let ?x = "length (mem s)"
    from Set_ok[OF w, of k v lifetime] st have
      h: "set (heap s') = insert ?x (set (heap s))" and ix: "index s' = (index s)(k \<mapsto> ?x)"
      and kx: "key (mem s' ! ?x) = k"
      and old: "\<forall>a < ?x. key (mem s' ! a) = key (mem s ! a)"
      by auto
    show ?thesis
      unfolding slots_indexed_def
    proof
      fix a assume "a \<in> set (heap s')"
      with h have "a = ?x \<or> a \<in> set (heap s)" by auto
      then show "index s' (key (mem s' ! a)) = Some a"
      proof
        assume "a = ?x"
        with kx ix show ?thesis by simp
      next
        assume a: "a \<in> set (heap s)"
        with w have "a < ?x" by (auto simp: store_inv_def ptr_ok_def in_set_conv_nth)
        with old have k': "key (mem s' ! a) = key (mem s ! a)" by simp
        from si a have ia: "index s (key (mem s ! a)) = Some a" by (simp add: slots_indexed_def)
        with n have "key (mem s ! a) \<noteq> k" by auto
        with ia k' ix show ?thesis by simp
      qed
    qed
  qed
  from a b c d e f show ?thesis by blast
qed

theorem slots_indexed_kept_witness:
  "reachable store12 \<and> slots_indexed store12 \<and> index store12 ''3'' = None \<and>
   Set store12 ''3'' (GoVal ''3'') (3 * second) = Some (None, store123) \<and>
   slots_indexed store123"
proof -
  have r: "reachable store12" by (rule r_Set[OF r_Set[OF r_new Set_store1] Set_store12])
  have si: "slots_indexed store12" by (simp add: slots_indexed_def store12_def)
  have n: "index store12 ''3'' = None" by (simp add: store12_def)
  from slots_indexed_kept[OF r si, where k = "''3''"] n Set_store123 have "slots_indexed store123"
    by blast
  with r si n Set_store123 show ?thesis by simp
qed

text \<open>
  X4. \<open>Delete\<close> succeeds in every reachable state, whether the key is in the map or
  not; afterwards the key is not in the map, and deleting it again changes nothing.
\<close>

theorem Delete_idempotent:
  assumes r: "reachable s"
  shows "\<exists>s'. Delete s k = Some (None, s') \<and> index s' k = None \<and>
           Delete s' k = Some (None, s') \<and> (index s k = None \<longrightarrow> s' = s)"
proof (cases "index s k")
  case None
  then show ?thesis by (simp add: Delete_absent)
next
  case (Some a)
  from r have "store_inv s" by (rule reachable_inv)
  from Delete_ok[OF this Some] obtain s' where
    "Delete s k = Some (None, s')" "index s' = (index s)(k := None)" by blast
  with Some show ?thesis by (auto simp: Delete_absent)
qed

theorem Delete_idempotent_witness:
  "reachable store123 \<and>
   (\<exists>s'. Delete store123 ''1'' = Some (None, s') \<and> index s' ''1'' = None \<and>
         Delete s' ''1'' = Some (None, s')) \<and>
   Delete store123 ''9'' = Some (None, store123)"
proof -
  have "index store123 ''9'' = None" by (simp add: store123_def)
  with Delete_idempotent[OF reachable_store123, of "''1''"]
    Delete_idempotent[OF reachable_store123, of "''9''"] reachable_store123
  show ?thesis by auto
qed

text \<open>
  X5. \<open>Flush\<close> returns nil and leaves a store in which \<open>Get\<close> returns \<^verbatim>\<open>nil\<close>
  for every key, and in which a sweep removes nothing.
\<close>

theorem Flush_complete:
  "fst (Flush s) = None \<and> Len (snd (Flush s)) = 0 \<and>
   Get (snd (Flush s)) k = Some (GoNil, snd (Flush s), []) \<and>
   GC ctx t (snd (Flush s)) = Some (None, snd (Flush s)) \<and>
   GC_visit ctx t (snd (Flush s)) = Some []"
  by (simp add: Flush_def Get_def Len_def GC.simps GC_visit.simps GC_done_def)

end
